theory Spec2Isabelle
  imports Complex_Main "HOL-Library.Word"
begin

section \<open>Wire format: the 4-byte big-endian length field\<close>

text \<open>
  Both programs exchange envelopes made of a length field and a payload. The sender
  builds the field with \<^verbatim>\<open>struct.pack('>I', data_size)\<close>, the receiver reads it with
  \<^verbatim>\<open>struct.unpack('>I', size_bytes)[0]\<close>. Python integers are unbounded, so lengths are
  \<^typ>\<open>int\<close>; \<^verbatim>\<open>struct.pack\<close> raises \<^verbatim>\<open>struct.error\<close> outside \<open>0 .. 2^32 - 1\<close> and
  \<^verbatim>\<open>struct.unpack\<close> raises it when the buffer is not exactly four bytes long.
\<close>

type_synonym byte = "8 word"

datatype error = StructError | SerialException | ZeroDivisionError | ImageError

definition struct_pack_I :: "int \<Rightarrow> error + byte list" where
  "struct_pack_I n =
     (if 0 \<le> n \<and> n < 2 ^ 32
      then Inr [word_of_int (n div 2 ^ 24), word_of_int (n div 2 ^ 16),
                word_of_int (n div 2 ^ 8), word_of_int n]
      else Inl StructError)"

definition struct_unpack_I :: "byte list \<Rightarrow> error + int" where
  "struct_unpack_I bs =
     (case bs of
        [a, b, c, d] \<Rightarrow> Inr (uint a * 2 ^ 24 + uint b * 2 ^ 16 + uint c * 2 ^ 8 + uint d)
      | _ \<Rightarrow> Inl StructError)"

section \<open>Sender (rpi\_screen\_sender.py)\<close>

subsection \<open>The outbound serial connection\<close>

text \<open>
  The connection object is modelled by the calls it has completed (\<open>oplog\<close>) and by a
  schedule of faults: every call of \<^verbatim>\<open>write\<close> or \<^verbatim>\<open>flush\<close> takes the next flag of
  \<open>faults\<close>, and raises \<^verbatim>\<open>SerialException\<close> when the flag is set. An exhausted schedule
  means no further fault.
\<close>

datatype ser_op = Write "byte list" | Flush

record conn =
  oplog :: "ser_op list"
  faults :: "bool list"

definition next_fault :: "conn \<Rightarrow> bool" where
  "next_fault c = (case faults c of [] \<Rightarrow> False | f # _ \<Rightarrow> f)"

definition ser_write :: "conn \<Rightarrow> byte list \<Rightarrow> (error + nat) \<times> conn" where
  "ser_write c bs =
     (if next_fault c then (Inl SerialException, c\<lparr>faults := tl (faults c)\<rparr>)
      else (Inr (length bs), c\<lparr>oplog := oplog c @ [Write bs], faults := tl (faults c)\<rparr>))"

definition ser_flush :: "conn \<Rightarrow> (error + unit) \<times> conn" where
  "ser_flush c =
     (if next_fault c then (Inl SerialException, c\<lparr>faults := tl (faults c)\<rparr>)
      else (Inr (), c\<lparr>oplog := oplog c @ [Flush], faults := tl (faults c)\<rparr>))"

text \<open>
  The bytes that have left the write buffer: a written block is on the wire once a flush
  follows it. The second argument holds the blocks written since the last flush.
\<close>

fun wire_bytes :: "ser_op list \<Rightarrow> byte list \<Rightarrow> byte list" where
  "wire_bytes [] pending = []"
| "wire_bytes (Write bs # ops) pending = wire_bytes ops (pending @ bs)"
| "wire_bytes (Flush # ops) pending = pending @ wire_bytes ops []"

subsection \<open>compress\_and\_send\_frame\<close>

text \<open>
  \<^verbatim>\<open>ScreenSender.compress_and_send_frame(serial_conn, image)\<close>. Resizing and JPEG
  compression are calls into PIL; they are the parameter \<open>encode\<close>, which gives the
  bytes of \<^verbatim>\<open>buffer.getvalue()\<close>. Each call that can raise is a branch.
\<close>

definition compress_and_send_frame ::
  "('img \<Rightarrow> byte list) \<Rightarrow> conn \<Rightarrow> 'img \<Rightarrow> (error + int) \<times> conn" where
  "compress_and_send_frame encode serial_conn img =
     (let jpeg_bytes = encode img;
          data_size = int (length jpeg_bytes)
      in case struct_pack_I data_size of
           Inl e \<Rightarrow> (Inl e, serial_conn)
         | Inr size_bytes \<Rightarrow>
             (case ser_write serial_conn size_bytes of
                (Inl e, c1) \<Rightarrow> (Inl e, c1)
              | (Inr _, c1) \<Rightarrow>
                  (case ser_write c1 jpeg_bytes of
                     (Inl e, c2) \<Rightarrow> (Inl e, c2)
                   | (Inr _, c2) \<Rightarrow>
                       (case ser_flush c2 of
                          (Inl e, c3) \<Rightarrow> (Inl e, c3)
                        | (Inr _, c3) \<Rightarrow> (Inr data_size, c3)))))"

subsection \<open>Pacing in sender\_loop\<close>

text \<open>
  The end of one iteration of \<^verbatim>\<open>sender_loop\<close>:
  \<^verbatim>\<open>sleep_time = max(0, FRAME_INTERVAL - process_time)\<close>, then
  \<^verbatim>\<open>if sleep_time > 0: time.sleep(sleep_time)\<close>. Times are Python floats; they are
  modelled by real numbers, so rounding is not represented.
\<close>

definition TARGET_FPS :: real where
  "TARGET_FPS = 15"

definition FRAME_INTERVAL :: real where
  "FRAME_INTERVAL = 1 / TARGET_FPS"

definition sleep_time :: "real \<Rightarrow> real \<Rightarrow> real" where
  "sleep_time frame_interval process_time = max 0 (frame_interval - process_time)"

text \<open>The duration handed to \<^verbatim>\<open>time.sleep\<close>, or \<open>None\<close> when the call is skipped.\<close>

definition pace :: "real \<Rightarrow> real \<Rightarrow> real option" where
  "pace frame_interval process_time =
     (let s = sleep_time frame_interval process_time in if s > 0 then Some s else None)"

section \<open>Receiver (pc\_screen\_receiver.py)\<close>

subsection \<open>The inbound serial port, the stop flag and the clock\<close>

text \<open>
  What the thread sees of the outside is a script of events. \<open>Data c\<close> is a burst of
  bytes after which the line stays silent for longer than the read timeout (an empty
  burst is a timeout with nothing received), \<open>Fail\<close> is a read that raises
  \<^verbatim>\<open>SerialException\<close>, and \<open>Stop\<close> marks the moment another thread has run
  \<^verbatim>\<open>stop()\<close>, which clears \<^verbatim>\<open>self.running\<close>. An exhausted script is an idle line.
  \<open>io_log\<close> records, for every read, the number of bytes asked for and the number
  returned. \<open>clock\<close> gives the successive values of \<^verbatim>\<open>time.time()\<close>.
\<close>

datatype event = Data "byte list" | Fail | Stop

record world =
  events :: "event list"
  io_log :: "(nat \<times> nat) list"
  clock :: "nat \<Rightarrow> real"
  ticks :: nat

definition running :: "world \<Rightarrow> bool" where
  "running w = (case events w of Stop # _ \<Rightarrow> False | _ \<Rightarrow> True)"

text \<open>
  \<^verbatim>\<open>serial_port.read(n)\<close> with \<^verbatim>\<open>timeout=1\<close>: at most \<open>n\<close> bytes, fewer when the
  timeout expires first. Bytes of a burst that were not asked for stay in the buffer.
\<close>

definition ser_read :: "nat \<Rightarrow> world \<Rightarrow> (error + byte list) \<times> world" where
  "ser_read n w =
     (case events w of
        [] \<Rightarrow> (Inr [], w\<lparr>io_log := io_log w @ [(n, 0)]\<rparr>)
      | Data c # es \<Rightarrow>
          if length c \<le> n
          then (Inr c, w\<lparr>events := es, io_log := io_log w @ [(n, length c)]\<rparr>)
          else (Inr (take n c),
                w\<lparr>events := Data (drop n c) # es, io_log := io_log w @ [(n, n)]\<rparr>)
      | Fail # es \<Rightarrow> (Inl SerialException, w\<lparr>events := es\<rparr>)
      | Stop # es \<Rightarrow> (Inr [], w\<lparr>io_log := io_log w @ [(n, 0)]\<rparr>))"

definition time_time :: "world \<Rightarrow> real \<times> world" where
  "time_time w = (clock w (ticks w), w\<lparr>ticks := Suc (ticks w)\<rparr>)"

subsection \<open>Signals and statistics\<close>

datatype report = ProcessingFrame | Serial | Unexpected

datatype 'img signal = FrameReceived 'img | ErrorOccurred report | FpsUpdate real

text \<open>Selecting the rate samples and the frames of a list of signals.\<close>

fun is_fps :: "'img signal \<Rightarrow> bool" where
  "is_fps (FpsUpdate v) = True"
| "is_fps _ = False"

fun is_frame :: "'img signal \<Rightarrow> bool" where
  "is_frame (FrameReceived i) = True"
| "is_frame _ = False"

record stats =
  frames_received :: int
  start_time :: real
  last_fps_update :: real

text \<open>
  The clock readings and the rate are Python floats (IEEE doubles). A double is modelled
  by the real number it stands for, and the two floating-point operations of the
  statistics lines are parameters of the model: \<open>fsub\<close> is the subtraction of two
  doubles and \<open>fdiv\<close> the true division of an integer by a double, each with whatever
  rounding the machine applies. Comparisons of doubles are exact. \<open>exact\<close> is the
  arithmetic without rounding; it agrees with double arithmetic wherever the exact
  result is itself a double, as for the readings 0, 1/2, 1 and 2 used in the concrete
  runs below.
\<close>

record float_ops =
  fsub :: "real \<Rightarrow> real \<Rightarrow> real"
  fdiv :: "int \<Rightarrow> real \<Rightarrow> real"

definition exact :: float_ops where
  "exact = \<lparr>fsub = (\<lambda>a b. a - b), fdiv = (\<lambda>n x. real_of_int n / x)\<rparr>"

text \<open>
  The statistics lines of the \<^verbatim>\<open>try\<close> block, after the frame has been emitted. The
  division raises \<^verbatim>\<open>ZeroDivisionError\<close> on a zero divisor; the counter has been
  incremented by then.
\<close>

definition update_stats ::
  "float_ops \<Rightarrow> stats \<Rightarrow> real \<Rightarrow> (error + real option) \<times> stats" where
  "update_stats fl st current_time =
     (let st1 = st\<lparr>frames_received := frames_received st + 1\<rparr>;
          elapsed = fsub fl current_time (start_time st1)
      in if fsub fl current_time (last_fps_update st1) \<ge> 1
         then (if elapsed = 0 then (Inl ZeroDivisionError, st1)
               else (Inr (Some (fdiv fl (frames_received st1) elapsed)),
                     st1\<lparr>last_fps_update := current_time\<rparr>))
         else (Inr None, st1))"

text \<open>
  What the statistics lines are meant to do, written from the description of the rate
  sample and not from the code: given the frames that were decoded, each with the clock
  reading taken for it, every frame is delivered; a frame is followed by a rate sample
  exactly when the computed difference between its reading and the reading at the
  previous sample (the session start, before the first sample) is at least 1.0 and the
  computed time since the start is not zero; the sample is the number of frames
  delivered since the start, this one included, divided by the computed time since the
  start. The count \<open>n\<close> only ever grows.
\<close>

fun rate_spec ::
  "float_ops \<Rightarrow> real \<Rightarrow> real \<Rightarrow> int \<Rightarrow> ('img \<times> real) list \<Rightarrow> 'img signal list" where
  "rate_spec fl start prev n [] = []"
| "rate_spec fl start prev n ((i, t) # fs) =
     FrameReceived i #
     (if 1 \<le> fsub fl t prev \<and> fsub fl t start \<noteq> 0
      then FpsUpdate (fdiv fl (n + 1) (fsub fl t start)) # rate_spec fl start t (n + 1) fs
      else rate_spec fl start prev (n + 1) fs)"

text \<open>The images of the frames in a list of signals, and \<open>k\<close> successive clock readings.\<close>

fun frames_of :: "'img signal list \<Rightarrow> 'img list" where
  "frames_of [] = []"
| "frames_of (FrameReceived i # ss) = i # frames_of ss"
| "frames_of (s # ss) = frames_of ss"

fun readings :: "(nat \<Rightarrow> real) \<Rightarrow> nat \<Rightarrow> nat \<Rightarrow> real list" where
  "readings c n 0 = []"
| "readings c n (Suc k) = c n # readings c (Suc n) k"

text \<open>
  The \<^verbatim>\<open>try\<close> block that follows \<^verbatim>\<open>if len(jpeg_data) == frame_size\<close>.
  \<^verbatim>\<open>Image.open\<close> is the parameter \<open>decode\<close>; \<open>None\<close> means it raised. Every exception
  inside the block ends in \<^verbatim>\<open>error_occurred.emit("Error processing frame: ...")\<close>.
\<close>

definition process_frame ::
  "float_ops \<Rightarrow> (byte list \<Rightarrow> 'img option) \<Rightarrow> byte list \<Rightarrow> stats \<Rightarrow> world \<Rightarrow>
   'img signal list \<times> stats \<times> world" where
  "process_frame fl decode jpeg_data st w =
     (case decode jpeg_data of
        None \<Rightarrow> ([ErrorOccurred ProcessingFrame], st, w)
      | Some img \<Rightarrow>
          (case time_time w of
             (current_time, w1) \<Rightarrow>
               (case update_stats fl st current_time of
                  (Inl e, st1) \<Rightarrow> ([FrameReceived img, ErrorOccurred ProcessingFrame], st1, w1)
                | (Inr None, st1) \<Rightarrow> ([FrameReceived img], st1, w1)
                | (Inr (Some fps), st1) \<Rightarrow> ([FrameReceived img, FpsUpdate fps], st1, w1))))"

subsection \<open>The payload loop\<close>

text \<open>
  \<^verbatim>\<open>while remaining > 0 and self.running:\<close> with its body. The result is the pair
  \<open>(jpeg_data, remaining)\<close> at the exit of the loop, or the exception of a read.
\<close>

function read_payload ::
  "byte list \<Rightarrow> int \<Rightarrow> world \<Rightarrow> (error + byte list \<times> int) \<times> world" where
  "read_payload jpeg_data remaining w =
     (if remaining > 0 \<and> running w
      then (case ser_read (nat (min remaining 4096)) w of
              (Inl e, w1) \<Rightarrow> (Inl e, w1)
            | (Inr chunk, w1) \<Rightarrow>
                if chunk = [] then (Inr (jpeg_data, remaining), w1)
                else read_payload (jpeg_data @ chunk) (remaining - int (length chunk)) w1)
      else (Inr (jpeg_data, remaining), w))"
  by pat_completeness auto
termination
  by (relation "measure (\<lambda>(jpeg_data, remaining, w). nat remaining)") auto

declare read_payload.simps [simp del]

subsection \<open>One iteration of the receive loop\<close>

text \<open>
  From \<^verbatim>\<open>size_bytes = self.serial_port.read(4)\<close> to the end of the payload loop. The
  result \<open>None\<close> is the \<^verbatim>\<open>continue\<close> after a short header read; otherwise it is
  \<open>(frame_size, jpeg_data)\<close>.
\<close>

definition read_envelope :: "world \<Rightarrow> (error + (int \<times> byte list) option) \<times> world" where
  "read_envelope w =
     (case ser_read 4 w of
        (Inl e, w1) \<Rightarrow> (Inl e, w1)
      | (Inr size_bytes, w1) \<Rightarrow>
          if length size_bytes < 4 then (Inr None, w1)
          else (case struct_unpack_I size_bytes of
                  Inl e \<Rightarrow> (Inl e, w1)
                | Inr frame_size \<Rightarrow>
                    (case read_payload [] frame_size w1 of
                       (Inl e, w2) \<Rightarrow> (Inl e, w2)
                     | (Inr (jpeg_data, remaining), w2) \<Rightarrow>
                         (Inr (Some (frame_size, jpeg_data)), w2))))"

definition loop_body ::
  "float_ops \<Rightarrow> (byte list \<Rightarrow> 'img option) \<Rightarrow> stats \<Rightarrow> world \<Rightarrow>
   (error + 'img signal list) \<times> stats \<times> world" where
  "loop_body fl decode st w =
     (case read_envelope w of
        (Inl e, w1) \<Rightarrow> (Inl e, st, w1)
      | (Inr None, w1) \<Rightarrow> (Inr [], st, w1)
      | (Inr (Some (frame_size, jpeg_data)), w1) \<Rightarrow>
          if int (length jpeg_data) = frame_size
          then (case process_frame fl decode jpeg_data st w1 of
                  (sigs, st1, w2) \<Rightarrow> (Inr sigs, st1, w2))
          else (Inr [], st, w1))"

subsection \<open>The receive loop\<close>

text \<open>
  The script is finite, the loop is not: \<open>budget\<close> counts what is left of the script,
  and the model of \<^verbatim>\<open>while self.running:\<close> ends with \<open>Idle\<close> when the script is
  exhausted while the flag is still set (the thread then polls an idle line for ever).
\<close>

definition cost :: "event \<Rightarrow> nat" where
  "cost e = (case e of Data c \<Rightarrow> Suc (length c) | _ \<Rightarrow> 1)"

definition budget :: "world \<Rightarrow> nat" where
  "budget w = sum_list (map cost (events w))"

lemma budget_ser_read: "budget (snd (ser_read n w)) \<le> budget w"
  by (auto simp: ser_read_def budget_def cost_def split: list.splits event.splits)

lemma budget_ser_read_less:
  "events w \<noteq> [] \<Longrightarrow> running w \<Longrightarrow> 0 < n \<Longrightarrow> budget (snd (ser_read n w)) < budget w"
  by (auto simp: ser_read_def running_def budget_def cost_def split: list.splits event.splits)

lemma budget_read_payload: "budget (snd (read_payload jpeg_data remaining w)) \<le> budget w"
proof (induction jpeg_data remaining w rule: read_payload.induct)
  case (1 jpeg_data remaining w)
  show ?case
  proof (cases "remaining > 0 \<and> running w")
    case False
    then show ?thesis by (subst read_payload.simps) auto
  next
    case True
    obtain r w1 where rd: "ser_read (nat (min remaining 4096)) w = (r, w1)"
      by (cases "ser_read (nat (min remaining 4096)) w")
    have le: "budget w1 \<le> budget w"
      using budget_ser_read [of "nat (min remaining 4096)" w] rd by simp
    show ?thesis
    proof (cases r)
      case (Inl e)
      with True rd le show ?thesis by (subst read_payload.simps) simp
    next
      case (Inr chunk)
      show ?thesis
      proof (cases "chunk = []")
        case True
        with \<open>remaining > 0 \<and> running w\<close> rd le Inr show ?thesis
          by (subst read_payload.simps) simp
      next
        case False
        have "budget (snd (read_payload (jpeg_data @ chunk) (remaining - int (length chunk)) w1))
                \<le> budget w1"
          using "1.IH" [OF True rd [symmetric] Inr False] .
        with \<open>remaining > 0 \<and> running w\<close> rd le Inr False show ?thesis
          by (subst read_payload.simps) simp
      qed
    qed
  qed
qed

lemma budget_read_payload_res:
  "read_payload jpeg_data remaining w = (r, w1) \<Longrightarrow> budget w1 \<le> budget w"
  using budget_read_payload [of jpeg_data remaining w] by simp

lemma budget_process_frame:
  "process_frame fl decode jpeg_data st w = (sigs, st1, w1) \<Longrightarrow> budget w1 = budget w"
  by (auto simp: process_frame_def time_time_def budget_def
      split: option.splits prod.splits sum.splits)

lemma budget_read_envelope:
  assumes "events w \<noteq> []" "running w"
  shows "budget (snd (read_envelope w)) < budget w"
proof -
  obtain r w1 where rd: "ser_read 4 w = (r, w1)"
    by (cases "ser_read 4 w")
  have lt: "budget w1 < budget w"
    using budget_ser_read_less [OF assms, of 4] rd by simp
  have "budget (snd (read_envelope w)) \<le> budget w1"
    using rd
    by (auto simp: read_envelope_def split: sum.splits prod.splits
        dest: budget_read_payload_res)
  with lt show ?thesis by simp
qed

lemma budget_loop_body:
  assumes "events w \<noteq> []" "running w" "loop_body fl decode st w = (r, st1, w1)"
  shows "budget w1 < budget w"
proof -
  have "budget w1 \<le> budget (snd (read_envelope w))"
    using assms(3)
    by (auto simp: loop_body_def split: sum.splits prod.splits option.splits if_splits
        dest: budget_process_frame)
  with budget_read_envelope [OF assms(1,2)] show ?thesis by simp
qed

datatype status = Idle | Halted | Crashed report

text \<open>
  \<^verbatim>\<open>while self.running:\<close> inside the outer \<^verbatim>\<open>try\<close>. An exception that leaves the body
  ends the loop: \<^verbatim>\<open>SerialException\<close> is reported as a serial error, any other one as an
  unexpected error.
\<close>

function run_loop ::
  "float_ops \<Rightarrow> (byte list \<Rightarrow> 'img option) \<Rightarrow> stats \<Rightarrow> world \<Rightarrow>
   'img signal list \<times> status \<times> stats \<times> world" where
  "run_loop fl decode st w =
     (if events w = [] then ([], Idle, st, w)
      else if \<not> running w then ([], Halted, st, w)
      else (case loop_body fl decode st w of
              (Inl e, st1, w1) \<Rightarrow>
                (let r = (if e = SerialException then Serial else Unexpected)
                 in ([ErrorOccurred r], Crashed r, st1, w1))
            | (Inr sigs, st1, w1) \<Rightarrow>
                (case run_loop fl decode st1 w1 of
                   (sigs', fin) \<Rightarrow> (sigs @ sigs', fin))))"
  by pat_completeness auto
termination
  by (relation "measure (\<lambda>(fl, decode, st, w). budget w)") (auto dest: budget_loop_body [OF _ _ sym])

declare run_loop.simps [simp del]

text \<open>
  \<^verbatim>\<open>FrameReceiverThread.run\<close>: opening the port (which raises \<^verbatim>\<open>SerialException\<close> when
  the port is not available), the initial statistics, then the loop.
\<close>

definition run ::
  "float_ops \<Rightarrow> (byte list \<Rightarrow> 'img option) \<Rightarrow> bool \<Rightarrow> world \<Rightarrow>
   'img signal list \<times> status \<times> stats \<times> world" where
  "run fl decode port_available w =
     (if \<not> port_available
      then ([ErrorOccurred Serial], Crashed Serial,
            \<lparr>frames_received = 0, start_time = 0, last_fps_update = 0\<rparr>, w)
      else (case time_time w of
              (start, w1) \<Rightarrow>
                run_loop fl decode
                  \<lparr>frames_received = 0, start_time = start, last_fps_update = start\<rparr> w1))"


section \<open>Auxiliary facts\<close>

subsection \<open>Length field\<close>





lemma uint_byte: "uint (word_of_int k :: byte) = k mod 256"
  by (simp add: uint_word_of_int take_bit_eq_mod)

lemma struct_unpack_I_4:
  "struct_unpack_I [a, b, c, d] = Inr (uint a * 2 ^ 24 + uint b * 2 ^ 16 + uint c * 2 ^ 8 + uint d)"
  unfolding struct_unpack_I_def by (simp only: list.case)

lemma struct_pack_I_ok:
  "0 \<le> n \<Longrightarrow> n < 2 ^ 32 \<Longrightarrow>
   struct_pack_I n = Inr [word_of_int (n div 2 ^ 24), word_of_int (n div 2 ^ 16),
                word_of_int (n div 2 ^ 8), word_of_int n]"
  unfolding struct_pack_I_def by (simp only: if_True simp_thms)

lemma be_digits:
  fixes n :: int
  assumes "0 \<le> n" "n < 2 ^ 32"
  shows "(n div 2 ^ 24) mod 256 * 2 ^ 24 + (n div 2 ^ 16) mod 256 * 2 ^ 16
           + (n div 2 ^ 8) mod 256 * 2 ^ 8 + n mod 256 = n"
proof -
  define a where "a = n div 256"
  define b where "b = a div 256"
  define c where "c = b div 256"
  have n: "a * 256 + n mod 256 = n"
    unfolding a_def by (rule div_mult_mod_eq)
  have a: "b * 256 + a mod 256 = a"
    unfolding b_def by (rule div_mult_mod_eq)
  have b: "c * 256 + b mod 256 = b"
    unfolding c_def by (rule div_mult_mod_eq)
  have a8: "n div 2 ^ 8 = a"
    by (simp add: a_def)
  have b16: "n div 2 ^ 16 = b"
    using zdiv_zmult2_eq [of 256 n 256] by (simp add: a_def b_def)
  have c24: "n div 2 ^ 24 = c"
    using zdiv_zmult2_eq [of 256 n 65536] b16 by (simp add: c_def)
  have m: "0 \<le> n mod 256" "n mod 256 < 256" "0 \<le> a mod 256" "a mod 256 < 256"
    "0 \<le> b mod 256" "b mod 256 < 256"
    by simp_all
  have "0 \<le> c"
    using n a b m assms(1) by linarith
  moreover have "c < 256"
    using n a b m assms(2) by simp
  ultimately have cm: "c mod 256 = c" by simp
  have "c * 16777216 + b mod 256 * 65536 + a mod 256 * 256 + n mod 256 = n"
    using n a b by linarith
  then have "c * 2 ^ 24 + b mod 256 * 2 ^ 16 + a mod 256 * 2 ^ 8 + n mod 256 = n"
    by simp
  then show ?thesis
    unfolding a8 b16 c24 cm .
qed

lemma unpack_pack:
  assumes "0 \<le> n" "n < 2 ^ 32"
  shows "struct_unpack_I [word_of_int (n div 2 ^ 24), word_of_int (n div 2 ^ 16),
                word_of_int (n div 2 ^ 8), word_of_int n] = Inr n"
  unfolding struct_unpack_I_4 uint_byte be_digits [OF assms] ..

lemma unpack_bounds:
  "struct_unpack_I [a, b, c, d] = Inr n \<Longrightarrow> 0 \<le> n \<and> n < 2 ^ 32"
proof -
  assume h: "struct_unpack_I [a, b, c, d] = Inr n"
  have "uint a < 256" "uint b < 256" "uint c < 256" "uint d < 256"
       "0 \<le> uint a" "0 \<le> uint b" "0 \<le> uint c" "0 \<le> uint d"
    using uint_bounded [of a] uint_bounded [of b] uint_bounded [of c] uint_bounded [of d]
    by simp_all
  moreover have "n = uint a * 16777216 + uint b * 65536 + uint c * 256 + uint d"
    using h unfolding struct_unpack_I_4 by simp
  ultimately show ?thesis by simp
qed



subsection \<open>Reading bursts from the port\<close>

lemma running_Data: "events w = Data c # es \<Longrightarrow> running w"
  by (simp add: running_def)

lemma running_Nil: "events w = [] \<Longrightarrow> running w"
  by (simp add: running_def)

lemma ser_read_all:
  "events w = Data c # es \<Longrightarrow> length c \<le> n \<Longrightarrow>
   ser_read n w = (Inr c, w\<lparr>events := es, io_log := io_log w @ [(n, length c)]\<rparr>)"
  by (simp add: ser_read_def)

lemma ser_read_part:
  "events w = Data c # es \<Longrightarrow> n < length c \<Longrightarrow>
   ser_read n w =
     (Inr (take n c), w\<lparr>events := Data (drop n c) # es, io_log := io_log w @ [(n, n)]\<rparr>)"
  by (simp add: ser_read_def)

lemma read_payload_done:
  "remaining \<le> 0 \<Longrightarrow> read_payload jpeg_data remaining w = (Inr (jpeg_data, remaining), w)"
  by (subst read_payload.simps) simp

lemma read_payload_step:
  assumes "0 < remaining" "running w"
    "ser_read (nat (min remaining 4096)) w = (Inr chunk, w1)" "chunk \<noteq> []"
  shows "read_payload jpeg_data remaining w =
           read_payload (jpeg_data @ chunk) (remaining - int (length chunk)) w1"
  using assms by (subst read_payload.simps) simp

lemma read_payload_chunk:
  assumes "events w = Data c # es" "c \<noteq> []" "int (length c) \<le> remaining"
  shows "\<exists>log. read_payload jpeg_data remaining w =
           read_payload (jpeg_data @ c) (remaining - int (length c))
             (w\<lparr>events := es, io_log := io_log w @ log\<rparr>)"
  using assms
proof (induction "length c" arbitrary: c jpeg_data remaining w rule: less_induct)
  case less
  have pos: "0 < remaining" using less.prems(2,3) by (cases c) auto
  have run: "running w" using less.prems(1) by (rule running_Data)
  let ?n = "nat (min remaining 4096)"
  show ?case
  proof (cases "length c \<le> ?n")
    case True
    have "read_payload jpeg_data remaining w =
            read_payload (jpeg_data @ c) (remaining - int (length c))
              (w\<lparr>events := es, io_log := io_log w @ [(?n, length c)]\<rparr>)"
      using pos run ser_read_all [OF less.prems(1) True] less.prems(2)
      by (rule read_payload_step)
    then show ?thesis by blast
  next
    case False
    define k where "k = ?n"
    from False have big: "k < length c" by (simp add: k_def)
    with less.prems(3) have k: "k = 4096" unfolding k_def by linarith
    let ?w1 = "w\<lparr>events := Data (drop k c) # es, io_log := io_log w @ [(k, k)]\<rparr>"
    have tk: "length (take k c) = k" using big by simp
    have rd: "ser_read (nat (min remaining 4096)) w = (Inr (take k c), ?w1)"
      using ser_read_part [OF less.prems(1), of k] big by (simp add: k_def)
    have tne: "take k c \<noteq> []" using big k by (cases c) auto
    have "read_payload jpeg_data remaining w =
            read_payload (jpeg_data @ take k c) (remaining - int (length (take k c))) ?w1"
      using pos run rd tne by (rule read_payload_step)
    then have step: "read_payload jpeg_data remaining w =
            read_payload (jpeg_data @ take k c) (remaining - int k) ?w1"
      unfolding tk .
    have ev: "events ?w1 = Data (drop k c) # es" by simp
    have ne: "drop k c \<noteq> []" using big by simp
    have shorter: "length (drop k c) < length c" using big k by simp
    have fits: "int (length (drop k c)) \<le> remaining - int k"
      using big less.prems(3) by simp
    obtain log where ih:
      "read_payload (jpeg_data @ take k c) (remaining - int k) ?w1 =
         read_payload ((jpeg_data @ take k c) @ drop k c)
           (remaining - int k - int (length (drop k c)))
           (?w1\<lparr>events := es, io_log := io_log ?w1 @ log\<rparr>)"
      using less.hyps [OF shorter ev ne fits] by blast
    have e1: "(jpeg_data @ take k c) @ drop k c = jpeg_data @ c" by simp
    have e2: "remaining - int k - int (length (drop k c)) = remaining - int (length c)"
      using big by simp
    have e3: "?w1\<lparr>events := es, io_log := io_log ?w1 @ log\<rparr> =
              w\<lparr>events := es, io_log := io_log w @ ((k, k) # log)\<rparr>"
      by simp
    have "read_payload jpeg_data remaining w =
         read_payload (jpeg_data @ c) (remaining - int (length c))
           (w\<lparr>events := es, io_log := io_log w @ ((k, k) # log)\<rparr>)"
      using step ih unfolding e1 e2 e3 by (rule trans)
    then show ?thesis by blast
  qed
qed


lemma world_idem: "events w = es \<Longrightarrow> w\<lparr>events := es, io_log := io_log w @ []\<rparr> = w"
  by simp

lemma read_payload_chunks:
  assumes "events w = map Data cs @ es" "[] \<notin> set cs"
    "int (length (concat cs)) \<le> remaining"
  shows "\<exists>log. read_payload jpeg_data remaining w =
           read_payload (jpeg_data @ concat cs) (remaining - int (length (concat cs)))
             (w\<lparr>events := es, io_log := io_log w @ log\<rparr>)"
  using assms
proof (induction cs arbitrary: jpeg_data remaining w)
  case Nil
  then have "w\<lparr>events := es, io_log := io_log w @ []\<rparr> = w" by simp
  then have "read_payload jpeg_data remaining w =
           read_payload (jpeg_data @ concat []) (remaining - int (length (concat ([] :: byte list list))))
             (w\<lparr>events := es, io_log := io_log w @ []\<rparr>)"
    by simp
  then show ?case by blast
next
  case (Cons c cs)
  have ev: "events w = Data c # (map Data cs @ es)" using Cons.prems(1) by simp
  have ne: "c \<noteq> []" using Cons.prems(2) by auto
  have le: "int (length c) \<le> remaining" using Cons.prems(3) by simp
  obtain log1 where first:
    "read_payload jpeg_data remaining w =
       read_payload (jpeg_data @ c) (remaining - int (length c))
         (w\<lparr>events := map Data cs @ es, io_log := io_log w @ log1\<rparr>)"
    using read_payload_chunk [OF ev ne le] by blast
  let ?w1 = "w\<lparr>events := map Data cs @ es, io_log := io_log w @ log1\<rparr>"
  have ev1: "events ?w1 = map Data cs @ es" by simp
  have ne1: "[] \<notin> set cs" using Cons.prems(2) by auto
  have le1: "int (length (concat cs)) \<le> remaining - int (length c)"
    using Cons.prems(3) by simp
  obtain log2 where rest:
    "read_payload (jpeg_data @ c) (remaining - int (length c)) ?w1 =
       read_payload ((jpeg_data @ c) @ concat cs)
         (remaining - int (length c) - int (length (concat cs)))
         (?w1\<lparr>events := es, io_log := io_log ?w1 @ log2\<rparr>)"
    using Cons.IH [OF ev1 ne1 le1] by blast
  have e1: "(jpeg_data @ c) @ concat cs = jpeg_data @ concat (c # cs)" by simp
  have e2: "remaining - int (length c) - int (length (concat cs))
              = remaining - int (length (concat (c # cs)))" by simp
  have e3: "?w1\<lparr>events := es, io_log := io_log ?w1 @ log2\<rparr>
              = w\<lparr>events := es, io_log := io_log w @ (log1 @ log2)\<rparr>" by simp
  have "read_payload jpeg_data remaining w =
          read_payload (jpeg_data @ concat (c # cs))
            (remaining - int (length (concat (c # cs))))
            (w\<lparr>events := es, io_log := io_log w @ (log1 @ log2)\<rparr>)"
    using first rest unfolding e1 e2 e3 by (rule trans)
  then show ?case by blast
qed

lemma read_payload_exact:
  assumes "events w = map Data cs @ es" "[] \<notin> set cs"
    "int (length (concat cs)) = remaining"
  shows "\<exists>log. read_payload jpeg_data remaining w =
           (Inr (jpeg_data @ concat cs, 0), w\<lparr>events := es, io_log := io_log w @ log\<rparr>)"
proof -
  have le: "int (length (concat cs)) \<le> remaining" using assms(3) by simp
  obtain log where
    "read_payload jpeg_data remaining w =
       read_payload (jpeg_data @ concat cs) (remaining - int (length (concat cs)))
         (w\<lparr>events := es, io_log := io_log w @ log\<rparr>)"
    using read_payload_chunks [OF assms(1,2) le] by blast
  then have "read_payload jpeg_data remaining w =
       (Inr (jpeg_data @ concat cs, 0), w\<lparr>events := es, io_log := io_log w @ log\<rparr>)"
    using assms(3) by (simp add: read_payload_done)
  then show ?thesis by blast
qed


lemma struct_pack_I_Inr:
  assumes "struct_pack_I n = Inr hdr"
  shows "length hdr = 4" and "struct_unpack_I hdr = Inr n" and "0 \<le> n" and "n < 2 ^ 32"
proof -
  have r: "0 \<le> n \<and> n < 2 ^ 32"
    using assms unfolding struct_pack_I_def by (metis Inl_Inr_False)
  then show "0 \<le> n" and "n < 2 ^ 32" by simp_all
  have h: "hdr = [word_of_int (n div 2 ^ 24), word_of_int (n div 2 ^ 16),
                word_of_int (n div 2 ^ 8), word_of_int n]"
    using assms struct_pack_I_ok [of n] r by simp
  show "length hdr = 4" unfolding h by simp
  show "struct_unpack_I hdr = Inr n" unfolding h using r by (simp only: unpack_pack)
qed

lemma read_envelope_header:
  assumes "ser_read 4 w = (Inr hdr, w1)" "length hdr = 4" "struct_unpack_I hdr = Inr n"
    "read_payload [] n w1 = (Inr (d, r), w2)"
  shows "read_envelope w = (Inr (Some (n, d)), w2)"
  using assms by (simp add: read_envelope_def)

lemma read_envelope_ok:
  assumes ev: "events w = Data c1 # map Data cs @ es" and c1: "4 \<le> length c1"
    and ne: "[] \<notin> set cs" and cat: "c1 @ concat cs = hdr @ P"
    and pk: "struct_pack_I (int (length P)) = Inr hdr"
  shows "\<exists>log. read_envelope w =
           (Inr (Some (int (length P), P)), w\<lparr>events := es, io_log := io_log w @ log\<rparr>)"
proof -
  note hd = struct_pack_I_Inr(1,2) [OF pk]
  have "take 4 (c1 @ concat cs) = take 4 (hdr @ P)" using cat by simp
  then have tk: "take 4 c1 = hdr" using c1 hd(1) by simp
  have "drop 4 (c1 @ concat cs) = drop 4 (hdr @ P)" using cat by simp
  then have dr: "drop 4 c1 @ concat cs = P" using c1 hd(1) by simp
  define cs' where "cs' = (if length c1 = 4 then cs else drop 4 c1 # cs)"
  let ?w1 = "w\<lparr>events := map Data cs' @ es, io_log := io_log w @ [(4, 4)]\<rparr>"
  have rd: "ser_read 4 w = (Inr hdr, ?w1)"
  proof (cases "length c1 = 4")
    case True
    then show ?thesis
      using ser_read_all [of w c1 "map Data cs @ es" 4] ev tk by (simp add: cs'_def)
  next
    case False
    then have "4 < length c1" using c1 by simp
    then show ?thesis
      using ser_read_part [of w c1 "map Data cs @ es" 4] ev tk False by (simp add: cs'_def)
  qed
  have ne': "[] \<notin> set cs'" using ne c1 by (auto simp: cs'_def)
  have cat': "concat cs' = P" using dr c1 by (auto simp: cs'_def)
  have ev1: "events ?w1 = map Data cs' @ es" by simp
  have len: "int (length (concat cs')) = int (length P)" using cat' by simp
  obtain log where
    "read_payload [] (int (length P)) ?w1 =
       (Inr ([] @ concat cs', 0), ?w1\<lparr>events := es, io_log := io_log ?w1 @ log\<rparr>)"
    using read_payload_exact [OF ev1 ne' len] by blast
  then have pl: "read_payload [] (int (length P)) ?w1 =
       (Inr (P, 0), w\<lparr>events := es, io_log := io_log w @ ((4, 4) # log)\<rparr>)"
    using cat' by simp
  have "read_envelope w =
          (Inr (Some (int (length P), P)), w\<lparr>events := es, io_log := io_log w @ ((4, 4) # log)\<rparr>)"
    using rd hd pl by (rule read_envelope_header)
  then show ?thesis by blast
qed


subsection \<open>The sender, call by call\<close>

lemma drop3_tl: "drop 3 xs = tl (tl (tl xs))"
  by (simp add: numeral_3_eq_3 drop_Suc)

lemma compress_and_send_frame_ok:
  assumes pk: "struct_pack_I (int (length (encode img))) = Inr hdr"
    and nf: "True \<notin> set (take 3 (faults c))"
  shows "compress_and_send_frame encode c img =
           (Inr (int (length (encode img))),
            c\<lparr>oplog := oplog c @ [Write hdr, Write (encode img), Flush],
              faults := drop 3 (faults c)\<rparr>)"
proof -
  have f1: "\<not> next_fault c"
    using nf by (cases "faults c") (auto simp: next_fault_def)
  let ?c1 = "c\<lparr>oplog := oplog c @ [Write hdr], faults := tl (faults c)\<rparr>"
  have w1: "ser_write c hdr = (Inr (length hdr), ?c1)"
    using f1 by (simp add: ser_write_def)
  have f2: "\<not> next_fault ?c1"
    using nf by (cases "faults c"; cases "tl (faults c)") (auto simp: next_fault_def)
  let ?c2 = "?c1\<lparr>oplog := oplog ?c1 @ [Write (encode img)], faults := tl (faults ?c1)\<rparr>"
  have w2: "ser_write ?c1 (encode img) = (Inr (length (encode img)), ?c2)"
    using f2 by (simp add: ser_write_def)
  have f3: "\<not> next_fault ?c2"
    using nf
    by (cases "faults c"; cases "tl (faults c)"; cases "tl (tl (faults c))")
       (auto simp: next_fault_def)
  let ?c3 = "?c2\<lparr>oplog := oplog ?c2 @ [Flush], faults := tl (faults ?c2)\<rparr>"
  have w3: "ser_flush ?c2 = (Inr (), ?c3)"
    using f3 by (simp add: ser_flush_def)
  have "compress_and_send_frame encode c img = (Inr (int (length (encode img))), ?c3)"
    unfolding compress_and_send_frame_def Let_def pk using w1 w2 w3 by simp
  then show ?thesis by (simp add: drop3_tl)
qed

lemma compress_and_send_frame_Inr:
  assumes "compress_and_send_frame encode c img = (Inr n, c')"
  shows "n = int (length (encode img)) \<and>
         (\<exists>hdr. struct_pack_I n = Inr hdr \<and>
                oplog c' = oplog c @ [Write hdr, Write (encode img), Flush])"
proof (cases "struct_pack_I (int (length (encode img)))")
  case (Inl e)
  with assms show ?thesis by (simp add: compress_and_send_frame_def Let_def)
next
  case (Inr hdr)
  show ?thesis
  proof (cases "next_fault c")
    case True
    with assms Inr show ?thesis
      by (simp add: compress_and_send_frame_def Let_def ser_write_def)
  next
    case f1: False
    let ?c1 = "c\<lparr>oplog := oplog c @ [Write hdr], faults := tl (faults c)\<rparr>"
    have w1: "ser_write c hdr = (Inr (length hdr), ?c1)"
      using f1 by (simp add: ser_write_def)
    show ?thesis
    proof (cases "next_fault ?c1")
      case True
      with assms Inr w1 show ?thesis
        by (simp add: compress_and_send_frame_def Let_def ser_write_def)
    next
      case f2: False
      let ?c2 = "?c1\<lparr>oplog := oplog ?c1 @ [Write (encode img)], faults := tl (faults ?c1)\<rparr>"
      have w2: "ser_write ?c1 (encode img) = (Inr (length (encode img)), ?c2)"
        using f2 by (simp add: ser_write_def)
      show ?thesis
      proof (cases "next_fault ?c2")
        case True
        then have "ser_flush ?c2 = (Inl SerialException, ?c2\<lparr>faults := tl (faults ?c2)\<rparr>)"
          by (simp add: ser_flush_def)
        with assms Inr w1 w2 show ?thesis
          by (simp add: compress_and_send_frame_def Let_def)
      next
        case False
        then have "ser_flush ?c2 =
            (Inr (), ?c2\<lparr>oplog := oplog ?c2 @ [Flush], faults := tl (faults ?c2)\<rparr>)"
          by (simp add: ser_flush_def)
        with assms Inr w1 w2 show ?thesis
          by (auto simp: compress_and_send_frame_def Let_def)
      qed
    qed
  qed
qed


subsection \<open>Unfolding the receive loop\<close>

lemma process_frame_Some:
  assumes "decode d = Some i"
  shows "\<exists>rest st1 w1. process_frame fl decode d st w = (FrameReceived i # rest, st1, w1)
           \<and> events w1 = events w"
  using assms
  by (auto simp: process_frame_def time_time_def split: prod.splits sum.splits option.splits)

lemma process_frame_None:
  "decode d = None \<Longrightarrow> process_frame fl decode d st w = ([ErrorOccurred ProcessingFrame], st, w)"
  by (simp add: process_frame_def)

lemma loop_body_frame:
  assumes "read_envelope w = (Inr (Some (int (length P), P)), w1)"
    "process_frame fl decode P st w1 = (sigs, st1, w2)"
  shows "loop_body fl decode st w = (Inr sigs, st1, w2)"
  using assms by (simp add: loop_body_def)

lemma run_loop_idle: "events w = [] \<Longrightarrow> run_loop fl decode st w = ([], Idle, st, w)"
  by (subst run_loop.simps) simp

lemma run_loop_halted:
  "events w = Stop # es \<Longrightarrow> run_loop fl decode st w = ([], Halted, st, w)"
  by (subst run_loop.simps) (simp add: running_def)

lemma run_loop_step:
  assumes "events w \<noteq> []" "running w" "loop_body fl decode st w = (Inr sigs, st1, w1)"
    "run_loop fl decode st1 w1 = (sigs', fin)"
  shows "run_loop fl decode st w = (sigs @ sigs', fin)"
  using assms by (subst run_loop.simps) simp

lemma run_loop_crash:
  assumes "events w \<noteq> []" "running w" "loop_body fl decode st w = (Inl e, st1, w1)"
  shows "run_loop fl decode st w =
           ([ErrorOccurred (if e = SerialException then Serial else Unexpected)],
            Crashed (if e = SerialException then Serial else Unexpected), st1, w1)"
  using assms by (subst run_loop.simps) (simp add: Let_def)


subsection \<open>Errors and the read log\<close>


lemma ser_read_no_Fail:
  assumes "Fail \<notin> set (events w)" "ser_read n w = (r, w1)"
  shows "(\<exists>bs. r = Inr bs) \<and> Fail \<notin> set (events w1)"
  using assms
  by (auto simp: ser_read_def split: list.splits event.splits if_splits)

lemma ser_read_Inl:
  "ser_read n w = (Inl e, w1) \<Longrightarrow> e = SerialException \<and> Fail \<in> set (events w)"
  by (auto simp: ser_read_def split: list.splits event.splits if_splits)

lemma read_payload_no_Fail:
  "Fail \<notin> set (events w) \<Longrightarrow> read_payload jpeg_data remaining w = (r, w1) \<Longrightarrow>
   (\<exists>x. r = Inr x) \<and> Fail \<notin> set (events w1)"
proof (induction jpeg_data remaining w rule: read_payload.induct)
  case (1 jpeg_data remaining w)
  show ?case
  proof (cases "remaining > 0 \<and> running w")
    case False
    with "1.prems" show ?thesis by (subst (asm) read_payload.simps) auto
  next
    case True
    obtain r0 w0 where rd: "ser_read (nat (min remaining 4096)) w = (r0, w0)"
      by (cases "ser_read (nat (min remaining 4096)) w")
    obtain chunk where r0: "r0 = Inr chunk" and nf: "Fail \<notin> set (events w0)"
      using ser_read_no_Fail [OF "1.prems"(1) rd] by blast
    show ?thesis
    proof (cases "chunk = []")
      case True
      with \<open>remaining > 0 \<and> running w\<close> rd r0 nf "1.prems"(2) show ?thesis
        by (subst (asm) read_payload.simps) auto
    next
      case False
      have "read_payload (jpeg_data @ chunk) (remaining - int (length chunk)) w0 = (r, w1)"
        using True rd r0 False "1.prems"(2) by (subst (asm) read_payload.simps) simp
      then show ?thesis
        using "1.IH" [OF True rd [symmetric] r0 False nf] by simp
    qed
  qed
qed

lemma struct_unpack_I_len4: "length bs = 4 \<Longrightarrow> \<exists>n. struct_unpack_I bs = Inr n \<and> 0 \<le> n \<and> n < 2 ^ 32"
proof -
  assume "length bs = 4"
  then obtain a b c d where bs: "bs = [a, b, c, d]"
    by (cases bs; cases "tl bs"; cases "tl (tl bs)"; cases "tl (tl (tl bs))") auto
  obtain n where n: "struct_unpack_I [a, b, c, d] = Inr n"
    using struct_unpack_I_4 by blast
  with unpack_bounds [OF n] bs show ?thesis by blast
qed

lemma ser_read_length: "ser_read n w = (Inr bs, w1) \<Longrightarrow> length bs \<le> n"
  by (auto simp: ser_read_def split: list.splits event.splits if_splits)

lemma read_envelope_no_Fail:
  assumes "Fail \<notin> set (events w)" "read_envelope w = (r, w1)"
  shows "(\<exists>x. r = Inr x) \<and> Fail \<notin> set (events w1)"
proof -
  obtain r0 w0 where rd: "ser_read 4 w = (r0, w0)" by (cases "ser_read 4 w")
  obtain hdr where r0: "r0 = Inr hdr" and nf: "Fail \<notin> set (events w0)"
    using ser_read_no_Fail [OF assms(1) rd] by blast
  show ?thesis
  proof (cases "length hdr < 4")
    case True
    with rd r0 nf assms(2) show ?thesis by (auto simp: read_envelope_def)
  next
    case False
    with ser_read_length [of 4 w hdr w0] rd r0 have "length hdr = 4" by simp
    then obtain n where n: "struct_unpack_I hdr = Inr n"
      using struct_unpack_I_len4 by blast
    obtain r2 w2 where rp: "read_payload [] n w0 = (r2, w2)" by (cases "read_payload [] n w0")
    from read_payload_no_Fail [OF nf rp] rd r0 False n rp assms(2)
    show ?thesis by (auto simp: read_envelope_def)
  qed
qed

lemma loop_body_no_Fail:
  assumes "Fail \<notin> set (events w)" "loop_body fl decode st w = (r, st1, w1)"
  shows "(\<exists>x. r = Inr x) \<and> Fail \<notin> set (events w1)"
proof -
  obtain r0 w0 where re: "read_envelope w = (r0, w0)" by (cases "read_envelope w")
  obtain x where r0: "r0 = Inr x" and nf: "Fail \<notin> set (events w0)"
    using read_envelope_no_Fail [OF assms(1) re] by blast
  have pf: "process_frame fl decode d st w0 = (s, st', w') \<Longrightarrow> events w' = events w0" for d s st' w'
    by (auto simp: process_frame_def time_time_def split: option.splits prod.splits sum.splits)
  show ?thesis
    using assms(2) re r0 nf
    by (auto simp: loop_body_def split: option.splits prod.splits if_splits dest: pf)
qed

lemma process_frame_errors:
  "process_frame fl decode d st w = (sigs, st1, w1) \<Longrightarrow> ErrorOccurred r \<in> set sigs \<Longrightarrow>
   r = ProcessingFrame"
  by (auto simp: process_frame_def split: option.splits prod.splits sum.splits)

lemma loop_body_errors:
  "loop_body fl decode st w = (Inr sigs, st1, w1) \<Longrightarrow> ErrorOccurred r \<in> set sigs \<Longrightarrow>
   r = ProcessingFrame"
  by (auto simp: loop_body_def split: option.splits prod.splits sum.splits if_splits
      dest: process_frame_errors)

lemma run_loop_no_Fail:
  "Fail \<notin> set (events w) \<Longrightarrow> run_loop fl decode st w = (sigs, fin, st1, w1) \<Longrightarrow>
   fin \<in> {Idle, Halted} \<and> (\<forall>r. ErrorOccurred r \<in> set sigs \<longrightarrow> r = ProcessingFrame)"
proof (induction fl decode st w arbitrary: sigs fin st1 w1 rule: run_loop.induct)
  case (1 fl decode st w)
  show ?case
  proof (cases "events w = [] \<or> \<not> running w")
    case True
    with "1.prems"(2) show ?thesis by (subst (asm) run_loop.simps) (auto split: if_splits)
  next
    case False
    then have ne: "events w \<noteq> []" and rn: "running w" by simp_all
    obtain r st2 w2 where lb: "loop_body fl decode st w = (r, st2, w2)"
      by (cases "loop_body fl decode st w")
    obtain s0 where r: "r = Inr s0" and nf: "Fail \<notin> set (events w2)"
      using loop_body_no_Fail [OF "1.prems"(1) lb] by blast
    obtain s1 fin1 st3 w3 where rl: "run_loop fl decode st2 w2 = (s1, fin1, st3, w3)"
      by (cases "run_loop fl decode st2 w2")
    have "run_loop fl decode st w = (s0 @ s1, fin1, st3, w3)"
      using ne rn lb [unfolded r] rl by (rule run_loop_step)
    with "1.prems"(2) have eq: "sigs = s0 @ s1" "fin = fin1" by simp_all
    have rn': "\<not> \<not> running w" using rn by simp
    have ih: "fin1 \<in> {Idle, Halted} \<and> (\<forall>r. ErrorOccurred r \<in> set s1 \<longrightarrow> r = ProcessingFrame)"
      using "1.IH" [OF ne rn' lb [symmetric] r refl nf rl] .
    show ?thesis
      using ih eq loop_body_errors [OF lb [unfolded r]] by auto
  qed
qed


lemma ser_read_log: "\<exists>log. io_log (snd (ser_read n w)) = io_log w @ log"
  by (auto simp: ser_read_def split: list.splits event.splits)

lemma read_payload_log: "\<exists>log. io_log (snd (read_payload jpeg_data remaining w)) = io_log w @ log"
proof (induction jpeg_data remaining w rule: read_payload.induct)
  case (1 jpeg_data remaining w)
  show ?case
  proof (cases "remaining > 0 \<and> running w")
    case False
    then show ?thesis by (subst read_payload.simps) auto
  next
    case True
    obtain r0 w0 where rd: "ser_read (nat (min remaining 4096)) w = (r0, w0)"
      by (cases "ser_read (nat (min remaining 4096)) w")
    obtain log0 where l0: "io_log w0 = io_log w @ log0"
      using ser_read_log [of "nat (min remaining 4096)" w] rd by auto
    show ?thesis
    proof (cases r0)
      case (Inl e)
      with True rd l0 show ?thesis by (subst read_payload.simps) simp
    next
      case (Inr chunk)
      show ?thesis
      proof (cases "chunk = []")
        case True
        with \<open>remaining > 0 \<and> running w\<close> rd l0 Inr show ?thesis
          by (subst read_payload.simps) simp
      next
        case False
        obtain log1 where
          "io_log (snd (read_payload (jpeg_data @ chunk) (remaining - int (length chunk)) w0))
             = io_log w0 @ log1"
          using "1.IH" [OF True rd [symmetric] Inr False] by blast
        with \<open>remaining > 0 \<and> running w\<close> rd l0 Inr False show ?thesis
          by (subst read_payload.simps) simp
      qed
    qed
  qed
qed

lemma read_envelope_snd:
  assumes "ser_read 4 w = (Inr hdr, w1)" "length hdr = 4" "struct_unpack_I hdr = Inr L"
  shows "snd (read_envelope w) = snd (read_payload [] L w1)"
  using assms by (auto simp: read_envelope_def split: prod.splits sum.splits)


subsection \<open>Envelopes that are cut short\<close>


lemma read_envelope_unfold:
  assumes "ser_read 4 w = (Inr hdr, w1)" "length hdr = 4" "struct_unpack_I hdr = Inr L"
  shows "read_envelope w =
           (case read_payload [] L w1 of
              (Inl e, w2) \<Rightarrow> (Inl e, w2)
            | (Inr (d, r), w2) \<Rightarrow> (Inr (Some (L, d)), w2))"
  using assms by (simp add: read_envelope_def)

lemma read_envelope_prefix:
  assumes ev: "events w = Data c1 # map Data cs @ es" and c1: "4 \<le> length c1"
    and ne: "[] \<notin> set cs" and cat: "c1 @ concat cs = hdr @ part"
    and h4: "length hdr = 4" and up: "struct_unpack_I hdr = Inr L"
    and le: "int (length part) \<le> L"
  shows "\<exists>log. read_envelope w =
           (case read_payload part (L - int (length part))
                   (w\<lparr>events := es, io_log := io_log w @ log\<rparr>) of
              (Inl e, w2) \<Rightarrow> (Inl e, w2)
            | (Inr (d, r), w2) \<Rightarrow> (Inr (Some (L, d)), w2))"
proof -
  have "take 4 (c1 @ concat cs) = take 4 (hdr @ part)" using cat by simp
  then have tk: "take 4 c1 = hdr" using c1 h4 by simp
  have "drop 4 (c1 @ concat cs) = drop 4 (hdr @ part)" using cat by simp
  then have dr: "drop 4 c1 @ concat cs = part" using c1 h4 by simp
  define cs' where "cs' = (if length c1 = 4 then cs else drop 4 c1 # cs)"
  let ?w1 = "w\<lparr>events := map Data cs' @ es, io_log := io_log w @ [(4, 4)]\<rparr>"
  have rd: "ser_read 4 w = (Inr hdr, ?w1)"
  proof (cases "length c1 = 4")
    case True
    then show ?thesis
      using ser_read_all [of w c1 "map Data cs @ es" 4] ev tk by (simp add: cs'_def)
  next
    case False
    then have "4 < length c1" using c1 by simp
    then show ?thesis
      using ser_read_part [of w c1 "map Data cs @ es" 4] ev tk False by (simp add: cs'_def)
  qed
  have ne': "[] \<notin> set cs'" using ne c1 by (auto simp: cs'_def)
  have cat': "concat cs' = part" using dr c1 by (auto simp: cs'_def)
  have ev1: "events ?w1 = map Data cs' @ es" by simp
  have len: "int (length (concat cs')) \<le> L" using cat' le by simp
  obtain log where
    "read_payload [] L ?w1 =
       read_payload ([] @ concat cs') (L - int (length (concat cs')))
         (?w1\<lparr>events := es, io_log := io_log ?w1 @ log\<rparr>)"
    using read_payload_chunks [OF ev1 ne' len] by blast
  then have pl: "read_payload [] L ?w1 =
       read_payload part (L - int (length part))
         (w\<lparr>events := es, io_log := io_log w @ ((4, 4) # log)\<rparr>)"
    using cat' by simp
  have "read_envelope w =
           (case read_payload part (L - int (length part))
                   (w\<lparr>events := es, io_log := io_log w @ ((4, 4) # log)\<rparr>) of
              (Inl e, w2) \<Rightarrow> (Inl e, w2)
            | (Inr (d, r), w2) \<Rightarrow> (Inr (Some (L, d)), w2))"
    using read_envelope_unfold [OF rd h4 up] unfolding pl .
  then show ?thesis by blast
qed

lemma read_payload_stall:
  assumes "0 < r"
    and "events w = [] \<or> (\<exists>t. events w = Data [] # t) \<or> (\<exists>t. events w = Stop # t)"
  shows "\<exists>w1. read_payload acc r w = (Inr (acc, r), w1)"
  using assms
  by (subst read_payload.simps) (auto simp: running_def ser_read_def)

lemma read_payload_fail:
  assumes "0 < r" "events w = Fail # t"
  shows "read_payload acc r w = (Inl SerialException, w\<lparr>events := t\<rparr>)"
  using assms
  by (subst read_payload.simps) (auto simp: running_def ser_read_def)

lemma process_frame_frames:
  "process_frame fl decode d st w = (sigs, st1, w1) \<Longrightarrow> FrameReceived i \<in> set sigs \<Longrightarrow>
   decode d = Some i"
  by (auto simp: process_frame_def split: option.splits prod.splits sum.splits)

lemma loop_body_frames:
  assumes "loop_body fl decode st v = (Inr sigs, st1, v1)" "FrameReceived i \<in> set sigs"
  shows "\<exists>n d. fst (read_envelope v) = Inr (Some (n, d)) \<and> int (length d) = n \<and>
           decode d = Some i"
  using assms
  by (auto simp: loop_body_def split: option.splits prod.splits sum.splits if_splits
      dest: process_frame_frames)

lemma loop_body_incomplete:
  assumes "read_envelope w = (Inr (Some (L, d)), w1)" "int (length d) \<noteq> L"
  shows "loop_body fl decode st w = (Inr [], st, w1)"
  using assms by (simp add: loop_body_def)

lemma loop_body_raise:
  assumes "read_envelope w = (Inl e, w1)"
  shows "loop_body fl decode st w = (Inl e, st, w1)"
  using assms by (simp add: loop_body_def)


subsection \<open>Statistics\<close>

lemma update_stats_cases:
  "update_stats fl st t =
     (if 1 \<le> fsub fl t (last_fps_update st)
      then (if fsub fl t (start_time st) = 0
            then (Inl ZeroDivisionError, st\<lparr>frames_received := frames_received st + 1\<rparr>)
            else (Inr (Some (fdiv fl (frames_received st + 1) (fsub fl t (start_time st)))),
                  st\<lparr>frames_received := frames_received st + 1, last_fps_update := t\<rparr>))
      else (Inr None, st\<lparr>frames_received := frames_received st + 1\<rparr>))"
  by (simp add: update_stats_def Let_def)

lemma update_stats_no_raise:
  assumes inv: "start_time st \<le> last_fps_update st"
    and mono: "\<forall>t a b. a \<le> b \<longrightarrow> fsub fl t b \<le> fsub fl t a"
  shows "update_stats fl st t \<noteq> (Inl e, st1)"
proof -
  have "fsub fl t (last_fps_update st) \<le> fsub fl t (start_time st)"
    using inv mono by blast
  then show ?thesis by (auto simp: update_stats_cases)
qed

lemma process_frame_Some_inv:
  assumes dec: "decode d = Some i" and inv: "start_time st \<le> last_fps_update st"
    and mono: "\<forall>t a b. a \<le> b \<longrightarrow> fsub fl t b \<le> fsub fl t a"
  shows "\<exists>rest st1 w1. process_frame fl decode d st w = (FrameReceived i # rest, st1, w1)
           \<and> events w1 = events w \<and> (rest = [] \<or> (\<exists>v. rest = [FpsUpdate v]))"
proof -
  obtain r st1 where us: "update_stats fl st (clock w (ticks w)) = (r, st1)"
    by (cases "update_stats fl st (clock w (ticks w))")
  have nr: "\<And>e. r \<noteq> Inl e"
    using update_stats_no_raise [OF inv mono, of "clock w (ticks w)" _ st1] us by auto
  show ?thesis
    using dec us nr
    by (cases r) (auto simp: process_frame_def time_time_def split: option.splits)
qed

lemma frames_of_append: "frames_of (xs @ ys) = frames_of xs @ frames_of ys"
  by (induction xs rule: frames_of.induct) simp_all

lemma length_readings: "length (readings c n k) = k"
  by (induction k arbitrary: n) simp_all

lemma readings_add: "readings c n (a + b) = readings c n a @ readings c (n + a) b"
  by (induction a arbitrary: n) simp_all

lemma ser_read_clock:
  "ser_read n w = (r, w1) \<Longrightarrow> clock w1 = clock w \<and> ticks w1 = ticks w"
  by (auto simp: ser_read_def split: list.splits event.splits if_splits)

lemma read_payload_clock:
  "read_payload jpeg_data remaining w = (r, w1) \<Longrightarrow> clock w1 = clock w \<and> ticks w1 = ticks w"
proof (induction jpeg_data remaining w rule: read_payload.induct)
  case (1 jpeg_data remaining w)
  show ?case
  proof (cases "remaining > 0 \<and> running w")
    case False
    then have "read_payload jpeg_data remaining w = (Inr (jpeg_data, remaining), w)"
      by (subst read_payload.simps) auto
    with "1.prems" show ?thesis by simp
  next
    case True
    obtain r0 w0 where rd: "ser_read (nat (min remaining 4096)) w = (r0, w0)"
      by (cases "ser_read (nat (min remaining 4096)) w")
    note c0 = ser_read_clock [OF rd]
    show ?thesis
    proof (cases r0)
      case (Inl e)
      with True rd "1.prems" have "w1 = w0" by (subst (asm) read_payload.simps) simp
      with c0 show ?thesis by simp
    next
      case (Inr chunk)
      show ?thesis
      proof (cases "chunk = []")
        case ce: True
        with True rd Inr "1.prems" have "w1 = w0" by (subst (asm) read_payload.simps) simp
        with c0 show ?thesis by simp
      next
        case False
        have "read_payload (jpeg_data @ chunk) (remaining - int (length chunk)) w0 = (r, w1)"
          using True rd Inr False "1.prems" by (subst (asm) read_payload.simps) simp
        then have "clock w1 = clock w0 \<and> ticks w1 = ticks w0"
          using "1.IH" [OF True rd [symmetric] Inr False] by simp
        with c0 show ?thesis by simp
      qed
    qed
  qed
qed

lemma read_envelope_clock:
  assumes "read_envelope w = (r, w1)"
  shows "clock w1 = clock w \<and> ticks w1 = ticks w"
proof -
  obtain r0 w0 where rd: "ser_read 4 w = (r0, w0)" by (cases "ser_read 4 w")
  note c0 = ser_read_clock [OF rd]
  show ?thesis
  proof (cases r0)
    case (Inl e)
    with rd assms c0 show ?thesis by (auto simp: read_envelope_def)
  next
    case (Inr hdr)
    show ?thesis
    proof (cases "length hdr < 4")
      case True
      with Inr rd assms c0 show ?thesis by (auto simp: read_envelope_def)
    next
      case False
      show ?thesis
      proof (cases "struct_unpack_I hdr")
        case (Inl e)
        with False Inr rd assms c0 show ?thesis by (auto simp: read_envelope_def)
      next
        case n: (Inr n)
        obtain r2 w2 where rp: "read_payload [] n w0 = (r2, w2)"
          by (cases "read_payload [] n w0")
        have "w1 = w2"
          using False Inr rd assms n rp
          by (auto simp: read_envelope_def split: sum.splits prod.splits)
        with read_payload_clock [OF rp] c0 show ?thesis by simp
      qed
    qed
  qed
qed

text \<open>
  One call of \<open>process_frame\<close> and one iteration of the loop, as a step of \<open>rate_spec\<close>:
  the frame and rate signals emitted, followed by what the specification gives from the
  new statistics, are what it gives from the old statistics with this frame in front.
\<close>

lemma process_frame_rate:
  assumes pf: "process_frame fl decode d st w = (sigs, st1, w1)"
  shows "clock w1 = clock w \<and> ticks w1 = ticks w + length (frames_of sigs) \<and>
         frames_received st1 = frames_received st + int (length (frames_of sigs)) \<and>
         start_time st1 = start_time st \<and>
         filter (\<lambda>s. is_frame s \<or> is_fps s) sigs @
           rate_spec fl (start_time st) (last_fps_update st1)
             (frames_received st + int (length (frames_of sigs))) fs =
         rate_spec fl (start_time st) (last_fps_update st) (frames_received st)
           (zip (frames_of sigs) (readings (clock w) (ticks w) (length (frames_of sigs))) @ fs)"
proof (cases "decode d")
  case None
  with pf have "sigs = [ErrorOccurred ProcessingFrame]" "st1 = st" "w1 = w"
    by (simp_all add: process_frame_def)
  then show ?thesis by simp
next
  case (Some i)
  let ?t = "clock w (ticks w)"
  have w1: "w1 = w\<lparr>ticks := Suc (ticks w)\<rparr>"
    using pf Some
    by (auto simp: process_frame_def time_time_def split: sum.splits option.splits prod.splits)
  have rd: "readings (clock w) (ticks w) (Suc 0) = [?t]" by simp
  show ?thesis
  proof (cases "1 \<le> fsub fl ?t (last_fps_update st)")
    case False
    then have "update_stats fl st ?t =
        (Inr None, st\<lparr>frames_received := frames_received st + 1\<rparr>)"
      by (simp add: update_stats_cases)
    with pf Some have "sigs = [FrameReceived i]"
      "st1 = st\<lparr>frames_received := frames_received st + 1\<rparr>"
      by (simp_all add: process_frame_def time_time_def)
    with w1 False rd show ?thesis by simp
  next
    case True
    show ?thesis
    proof (cases "fsub fl ?t (start_time st) = 0")
      case z: True
      with True have "update_stats fl st ?t =
          (Inl ZeroDivisionError, st\<lparr>frames_received := frames_received st + 1\<rparr>)"
        by (simp add: update_stats_cases)
      with pf Some have "sigs = [FrameReceived i, ErrorOccurred ProcessingFrame]"
        "st1 = st\<lparr>frames_received := frames_received st + 1\<rparr>"
        by (simp_all add: process_frame_def time_time_def)
      with w1 True z rd show ?thesis by simp
    next
      case nz: False
      with True have "update_stats fl st ?t =
          (Inr (Some (fdiv fl (frames_received st + 1) (fsub fl ?t (start_time st)))),
           st\<lparr>frames_received := frames_received st + 1, last_fps_update := ?t\<rparr>)"
        by (simp add: update_stats_cases)
      with pf Some have
        "sigs = [FrameReceived i,
                 FpsUpdate (fdiv fl (frames_received st + 1) (fsub fl ?t (start_time st)))]"
        "st1 = st\<lparr>frames_received := frames_received st + 1, last_fps_update := ?t\<rparr>"
        by (simp_all add: process_frame_def time_time_def)
      with w1 True nz rd show ?thesis by simp
    qed
  qed
qed

lemma loop_body_rate:
  assumes lb: "loop_body fl decode st w = (r, st1, w1)"
    and sigs: "sigs = (case r of Inl e \<Rightarrow> [] | Inr s \<Rightarrow> s)"
  shows "clock w1 = clock w \<and> ticks w1 = ticks w + length (frames_of sigs) \<and>
         frames_received st1 = frames_received st + int (length (frames_of sigs)) \<and>
         start_time st1 = start_time st \<and>
         filter (\<lambda>s. is_frame s \<or> is_fps s) sigs @
           rate_spec fl (start_time st) (last_fps_update st1)
             (frames_received st + int (length (frames_of sigs))) fs =
         rate_spec fl (start_time st) (last_fps_update st) (frames_received st)
           (zip (frames_of sigs) (readings (clock w) (ticks w) (length (frames_of sigs))) @ fs)"
proof -
  obtain r0 w0 where re: "read_envelope w = (r0, w0)" by (cases "read_envelope w")
  note c0 = read_envelope_clock [OF re]
  have quiet: ?thesis if "sigs = []" "st1 = st" "w1 = w0"
    using that c0 by simp
  show ?thesis
  proof (cases r0)
    case (Inl e)
    with re lb sigs show ?thesis by (intro quiet) (auto simp: loop_body_def)
  next
    case (Inr x)
    show ?thesis
    proof (cases x)
      case None
      with Inr re lb sigs show ?thesis by (intro quiet) (auto simp: loop_body_def)
    next
      case (Some p)
      obtain n d where p: "p = (n, d)" by (cases p)
      show ?thesis
      proof (cases "int (length d) = n")
        case False
        with Some p Inr re lb sigs show ?thesis by (intro quiet) (auto simp: loop_body_def)
      next
        case True
        obtain s2 st2 w2 where pf: "process_frame fl decode d st w0 = (s2, st2, w2)"
          by (cases "process_frame fl decode d st w0") auto
        with True Some p Inr re lb sigs have "sigs = s2 \<and> st1 = st2 \<and> w1 = w2"
          by (auto simp: loop_body_def)
        then have e: "sigs = s2" "st1 = st2" "w1 = w2" by simp_all
        have c: "clock w0 = clock w" "ticks w0 = ticks w" using c0 by simp_all
        show ?thesis
          using process_frame_rate [OF pf, of fs] unfolding e c .
      qed
    qed
  qed
qed

lemma run_loop_rate:
  "run_loop fl decode st w = (sigs, fin, st1, w1) \<Longrightarrow>
   frames_received st1 = frames_received st + int (length (frames_of sigs)) \<and>
   filter (\<lambda>s. is_frame s \<or> is_fps s) sigs =
     rate_spec fl (start_time st) (last_fps_update st) (frames_received st)
       (zip (frames_of sigs) (readings (clock w) (ticks w) (length (frames_of sigs))))"
proof (induction fl decode st w arbitrary: sigs fin st1 w1 rule: run_loop.induct)
  case (1 fl decode st w)
  show ?case
  proof (cases "events w = [] \<or> \<not> running w")
    case True
    with "1.prems" have "sigs = []" "st1 = st"
      by (subst (asm) run_loop.simps; auto split: if_splits)+
    then show ?thesis by simp
  next
    case False
    then have ne: "events w \<noteq> []" and rn: "running w" by simp_all
    obtain r st2 w2 where lb: "loop_body fl decode st w = (r, st2, w2)"
      by (cases "loop_body fl decode st w")
    show ?thesis
    proof (cases r)
      case (Inl e)
      have "run_loop fl decode st w =
           ([ErrorOccurred (if e = SerialException then Serial else Unexpected)],
            Crashed (if e = SerialException then Serial else Unexpected), st2, w2)"
        using ne rn lb [unfolded Inl] by (rule run_loop_crash)
      with "1.prems" have eq: "st1 = st2"
        "sigs = [ErrorOccurred (if e = SerialException then Serial else Unexpected)]"
        by simp_all
      have "frames_received st2 = frames_received st"
        using loop_body_rate [OF lb, of "[]" "[]"] Inl by simp
      with eq show ?thesis by simp
    next
      case (Inr s0)
      obtain s1 fin1 st3 w3 where rl: "run_loop fl decode st2 w2 = (s1, fin1, st3, w3)"
        by (cases "run_loop fl decode st2 w2")
      have "run_loop fl decode st w = (s0 @ s1, fin1, st3, w3)"
        using ne rn lb [unfolded Inr] rl by (rule run_loop_step)
      with "1.prems" have eq: "sigs = s0 @ s1" "st1 = st3" by simp_all
      have rn': "\<not> \<not> running w" using rn by simp
      note ih = "1.IH" [OF ne rn' lb [symmetric] Inr refl rl]
      let ?k0 = "length (frames_of s0)" and ?k1 = "length (frames_of s1)"
      let ?fs = "zip (frames_of s1) (readings (clock w) (ticks w + ?k0) ?k1)"
      have s0: "s0 = (case r of Inl e \<Rightarrow> [] | Inr s \<Rightarrow> s)" using Inr by simp
      note step = loop_body_rate [OF lb s0, of ?fs]
      have cl: "clock w2 = clock w" using step by (rule conjunct1)
      have tk: "ticks w2 = ticks w + ?k0" using step by simp
      have fr: "frames_received st2 = frames_received st + int ?k0" using step by simp
      have stt: "start_time st2 = start_time st" using step by simp
      have eqn: "filter (\<lambda>s. is_frame s \<or> is_fps s) s0 @
           rate_spec fl (start_time st) (last_fps_update st2)
             (frames_received st + int ?k0) ?fs =
         rate_spec fl (start_time st) (last_fps_update st) (frames_received st)
           (zip (frames_of s0) (readings (clock w) (ticks w) ?k0) @ ?fs)"
        using step by (elim conjE)
      have ih1: "frames_received st3 = frames_received st2 + int ?k1"
        using ih by (rule conjunct1)
      have ih2: "filter (\<lambda>s. is_frame s \<or> is_fps s) s1 =
          rate_spec fl (start_time st) (last_fps_update st2) (frames_received st + int ?k0) ?fs"
        using ih unfolding cl tk fr stt by (rule conjunct2)
      have zp: "zip (frames_of (s0 @ s1)) (readings (clock w) (ticks w) (?k0 + ?k1)) =
                zip (frames_of s0) (readings (clock w) (ticks w) ?k0) @ ?fs"
        by (simp add: frames_of_append readings_add length_readings)
      have "filter (\<lambda>s. is_frame s \<or> is_fps s) (s0 @ s1) =
            filter (\<lambda>s. is_frame s \<or> is_fps s) s0 @
            rate_spec fl (start_time st) (last_fps_update st2) (frames_received st + int ?k0) ?fs"
        unfolding filter_append ih2 ..
      also note eqn
      also note zp [symmetric]
      finally have main: "filter (\<lambda>s. is_frame s \<or> is_fps s) (s0 @ s1) =
          rate_spec fl (start_time st) (last_fps_update st) (frames_received st)
            (zip (frames_of (s0 @ s1)) (readings (clock w) (ticks w) (?k0 + ?k1)))" .
      have len: "length (frames_of (s0 @ s1)) = ?k0 + ?k1" by (simp add: frames_of_append)
      have cnt: "frames_received st3 = frames_received st + int (?k0 + ?k1)"
        using ih1 fr by simp
      show ?thesis
        unfolding eq len using cnt main by (intro conjI)
    qed
  qed
qed

subsection \<open>The payload loop, step by step\<close>


lemma ser_read_empty_log:
  "ser_read n w = (Inr [], w1) \<Longrightarrow> 0 < n \<Longrightarrow> io_log w1 = io_log w @ [(n, 0)]"
  by (auto simp: ser_read_def split: list.splits event.splits if_splits)

lemma ser_read_log_le: "ser_read n w = (r, w1) \<Longrightarrow> length (io_log w) \<le> length (io_log w1)"
  by (auto simp: ser_read_def split: list.splits event.splits if_splits)

lemma payload_step_invariant:
  assumes "0 < remaining" "ser_read (nat (min remaining 4096)) w = (Inr chunk, w1)"
    "int (length acc) + remaining = L"
  shows "int (length chunk) \<le> min remaining 4096 \<and>
         int (length (acc @ chunk)) + (remaining - int (length chunk)) = L \<and>
         0 \<le> remaining - int (length chunk)"
  using assms ser_read_length [OF assms(2)] by auto

lemma read_payload_stop:
  "remaining \<le> 0 \<or> \<not> running w \<Longrightarrow>
   read_payload acc remaining w = (Inr (acc, remaining), w)"
  by (subst read_payload.simps) auto

lemma read_payload_exit:
  "0 \<le> remaining \<Longrightarrow> int (length acc) + remaining = L \<Longrightarrow>
   read_payload acc remaining w = (Inr (d, r), w1) \<Longrightarrow>
   int (length d) + r = L \<and> 0 \<le> r \<and>
   (r = 0 \<or> \<not> running w1 \<or>
    (\<exists>n pre. io_log w1 = pre @ [(n, 0)] \<and> length (io_log w) < length (io_log w1)))"
proof (induction acc remaining w rule: read_payload.induct)
  case (1 acc remaining w)
  show ?case
  proof (cases "remaining > 0 \<and> running w")
    case False
    then have "read_payload acc remaining w = (Inr (acc, remaining), w)"
      by (intro read_payload_stop) auto
    with "1.prems" False show ?thesis by auto
  next
    case True
    let ?n = "nat (min remaining 4096)"
    obtain r0 w0 where rd: "ser_read ?n w = (r0, w0)" by (cases "ser_read ?n w")
    show ?thesis
    proof (cases r0)
      case (Inl e)
      with True rd "1.prems"(3) show ?thesis by (subst (asm) read_payload.simps) simp
    next
      case (Inr chunk)
      show ?thesis
      proof (cases "chunk = []")
        case ce: True
        have res: "d = acc" "r = remaining" "w1 = w0"
          using True rd Inr ce "1.prems"(3) by (subst (asm) read_payload.simps; simp)+
        have "0 < ?n" using True by simp
        then have "io_log w0 = io_log w @ [(?n, 0)]"
          using ser_read_empty_log rd Inr ce by blast
        with res "1.prems"(1,2) show ?thesis by auto
      next
        case False
        have rec: "read_payload (acc @ chunk) (remaining - int (length chunk)) w0 = (Inr (d, r), w1)"
          using True rd Inr False "1.prems"(3) by (subst (asm) read_payload.simps) simp
        have rd': "ser_read ?n w = (Inr chunk, w0)" using rd Inr by simp
        note st = payload_step_invariant [OF _ rd' "1.prems"(2)]
        have pos: "0 < remaining" using True by simp
        have i1: "0 \<le> remaining - int (length chunk)" using st [OF pos] by simp
        have i2: "int (length (acc @ chunk)) + (remaining - int (length chunk)) = L"
          using st [OF pos] by simp
        note ih = "1.IH" [OF True rd [symmetric] Inr False i1 i2 rec]
        have "length (io_log w) \<le> length (io_log w0)" using ser_read_log_le [OF rd] .
        with ih show ?thesis by auto
      qed
    qed
  qed
qed

lemma read_payload_Inl:
  "read_payload acc remaining w = (Inl e, w1) \<Longrightarrow> e = SerialException \<and> Fail \<in> set (events w)"
proof -
  assume h: "read_payload acc remaining w = (Inl e, w1)"
  have "Fail \<in> set (events w)"
  proof (rule ccontr)
    assume "Fail \<notin> set (events w)"
    from read_payload_no_Fail [OF this h] show False by simp
  qed
  moreover have "e = SerialException"
    using h
  proof (induction acc remaining w rule: read_payload.induct)
    case (1 acc remaining w)
    show ?case
    proof (cases "remaining > 0 \<and> running w")
      case False
      then have "read_payload acc remaining w = (Inr (acc, remaining), w)"
        by (intro read_payload_stop) auto
      with "1.prems" show ?thesis by simp
    next
      case True
      obtain r0 w0 where rd: "ser_read (nat (min remaining 4096)) w = (r0, w0)"
        by (cases "ser_read (nat (min remaining 4096)) w")
      show ?thesis
      proof (cases r0)
        case (Inl e0)
        with True rd "1.prems" have "e = e0" by (subst (asm) read_payload.simps) simp
        with ser_read_Inl rd Inl show ?thesis by blast
      next
        case (Inr chunk)
        show ?thesis
        proof (cases "chunk = []")
          case ce: True
          with True rd Inr "1.prems" show ?thesis by (subst (asm) read_payload.simps) simp
        next
          case False
          have "read_payload (acc @ chunk) (remaining - int (length chunk)) w0 = (Inl e, w1)"
            using True rd Inr False "1.prems" by (subst (asm) read_payload.simps) simp
          then show ?thesis using "1.IH" [OF True rd [symmetric] Inr False] by simp
        qed
      qed
    qed
  qed
  ultimately show ?thesis by simp
qed


subsection \<open>Evaluation on concrete scripts\<close>

lemmas ev_simps = exact_def run_def run_loop.simps loop_body_def read_envelope_def read_payload.simps
  ser_read_def running_def time_time_def process_frame_def update_stats_def
  struct_unpack_I_def Let_def


lemma three_frames_run:
  "run exact Some True
     \<lparr>events = [Data [0, 0, 0, 0], Data [0, 0, 0, 0], Data [0, 0, 0, 0]], io_log = [],
      clock = (\<lambda>n. if n \<le> 1 then real n / 2 else real n - 1), ticks = 0\<rparr>
   = ([FrameReceived [], FrameReceived [], FpsUpdate 2, FrameReceived [], FpsUpdate (3 / 2)],
      Idle, \<lparr>frames_received = 3, start_time = 0, last_fps_update = 2\<rparr>,
      \<lparr>events = [], io_log = [(4, 4), (4, 4), (4, 4)],
       clock = (\<lambda>n. if n \<le> 1 then real n / 2 else real n - 1), ticks = 4\<rparr>)"
  by (simp add: ev_simps)


section \<open>Envelope round trip\<close>

text \<open>
  Claim C1. For every payload \<open>P\<close> of at most \<open>2^32 - 1\<close> bytes (the largest length the
  4-byte field can hold), what the sender puts on the wire for \<open>P\<close> (the 4-byte
  big-endian length, then the payload, then a flush) is read back by the receiver's
  envelope decoding as exactly \<open>P\<close>: the header announces \<open>length P\<close>, the accumulated
  payload is \<open>P\<close>, the whole stream is consumed, and the frame handed to the display is
  the decoding of \<open>P\<close>.
\<close>

theorem envelope_roundtrip:
  assumes len: "length (encode img) < 2 ^ 32" and fresh: "oplog c = []"
    and nf: "True \<notin> set (take 3 (faults c))"
    and sent: "compress_and_send_frame encode c img = (r, c')"
    and ev: "events w = [Data (wire_bytes (oplog c') [])]"
  shows "fst (read_envelope w) = Inr (Some (int (length (encode img)), encode img)) \<and>
         events (snd (read_envelope w)) = [] \<and>
         (decode (encode img) = Some i \<longrightarrow>
            (\<exists>rest st1 w1. run fl decode True w = (FrameReceived i # rest, Idle, st1, w1)))"
proof -
  let ?P = "encode img"
  have "int (length ?P) < 2 ^ 32"
    using len by (metis of_nat_less_iff of_nat_numeral of_nat_power)
  then have pk: "struct_pack_I (int (length ?P)) =
      Inr [word_of_int (int (length ?P) div 2 ^ 24), word_of_int (int (length ?P) div 2 ^ 16),
           word_of_int (int (length ?P) div 2 ^ 8), word_of_int (int (length ?P))]"
    (is "_ = Inr ?hdr")
    using struct_pack_I_ok [of "int (length ?P)"] by simp
  have h4: "length ?hdr = 4" by simp
  have "oplog c' = [Write ?hdr, Write ?P, Flush]"
    using compress_and_send_frame_ok [where encode = encode and img = img and c = c, OF pk nf]
      sent fresh by simp
  then have wire: "wire_bytes (oplog c') [] = ?hdr @ ?P" by simp
  have env: "\<exists>log. read_envelope v =
           (Inr (Some (int (length ?P), ?P)), v\<lparr>events := [], io_log := io_log v @ log\<rparr>)"
    if "events v = events w" for v
  proof -
    have e: "events v = Data (?hdr @ ?P) # map Data [] @ []" using that ev wire by simp
    show ?thesis
      by (rule read_envelope_ok [OF e _ _ _ pk]) simp_all
  qed
  obtain log where re: "read_envelope w =
      (Inr (Some (int (length ?P), ?P)), w\<lparr>events := [], io_log := io_log w @ log\<rparr>)"
    using env [of w] by blast
  have run: "\<exists>rest st1 w1. run fl decode True w = (FrameReceived i # rest, Idle, st1, w1)"
    if dec: "decode ?P = Some i"
  proof -
    let ?w0 = "w\<lparr>ticks := Suc (ticks w)\<rparr>"
    let ?st = "\<lparr>frames_received = 0, start_time = clock w (ticks w),
                last_fps_update = clock w (ticks w)\<rparr>"
    have r0: "run fl decode True w = run_loop fl decode ?st ?w0"
      by (simp add: run_def time_time_def)
    have ev0: "events ?w0 = events w" by simp
    obtain log0 where re0: "read_envelope ?w0 =
      (Inr (Some (int (length ?P), ?P)), ?w0\<lparr>events := [], io_log := io_log ?w0 @ log0\<rparr>)"
      using env [OF ev0] by blast
    let ?w1 = "?w0\<lparr>events := [], io_log := io_log ?w0 @ log0\<rparr>"
    obtain rest st1 w2 where pf: "process_frame fl decode ?P ?st ?w1 = (FrameReceived i # rest, st1, w2)"
      and ev2: "events w2 = events ?w1"
      using process_frame_Some [where decode = decode and d = "?P" and i = i and st = "?st"
          and w = "?w1", OF dec] by blast
    have lb: "loop_body fl decode ?st ?w0 = (Inr (FrameReceived i # rest), st1, w2)"
      using re0 pf by (rule loop_body_frame)
    have ne: "events ?w0 \<noteq> []" using ev by simp
    have rn: "running ?w0" using ev by (simp add: running_def)
    have idle: "run_loop fl decode st1 w2 = ([], Idle, st1, w2)"
      using ev2 by (simp add: run_loop_idle)
    have "run_loop fl decode ?st ?w0 = ((FrameReceived i # rest) @ [], Idle, st1, w2)"
      using ne rn lb idle by (rule run_loop_step)
    with r0 show ?thesis by simp
  qed
  show ?thesis using re run by simp
qed


theorem envelope_roundtrip_witness:
  "fst (read_envelope \<lparr>events = [Data [0, 0, 0, 3, 1, 2, 3]], io_log = [],
          clock = (\<lambda>_. 0), ticks = 0\<rparr>) = Inr (Some (3, [1, 2, 3])) \<and>
   (\<exists>rest st1 w1. run exact Some True \<lparr>events = [Data [0, 0, 0, 3, 1, 2, 3]], io_log = [],
          clock = (\<lambda>_. 0), ticks = 0\<rparr> = (FrameReceived [1, 2, 3] # rest, Idle, st1, w1))"
proof -
  let ?c = "\<lparr>oplog = [], faults = []\<rparr>"
  let ?c' = "\<lparr>oplog = [Write [0, 0, 0, 3], Write [1, 2, 3 :: byte], Flush], faults = []\<rparr>"
  let ?w = "\<lparr>events = [Data [0, 0, 0, 3, 1, 2, 3]], io_log = [], clock = (\<lambda>_. 0), ticks = 0\<rparr>"
  have len: "length (id [1, 2, 3 :: byte]) < 2 ^ 32" by simp
  have fresh: "oplog ?c = []" by simp
  have nf: "True \<notin> set (take 3 (faults ?c))" by simp
  have sent: "compress_and_send_frame id ?c [1, 2, 3 :: byte] = (Inr 3, ?c')"
    by (simp add: compress_and_send_frame_def struct_pack_I_def ser_write_def ser_flush_def
        next_fault_def)
  have ev: "events ?w = [Data (wire_bytes (oplog ?c') [])]" by simp
  have dec: "Some (id [1, 2, 3 :: byte]) = Some [1, 2, 3 :: byte]" by simp
  show ?thesis
    using envelope_roundtrip [where encode = id and decode = Some and fl = exact, OF len fresh nf sent ev] dec
    by simp
qed

section \<open>The send operation\<close>

text \<open>
  Claim C8. For every payload that fits the length field, the send operation computes
  the payload length, writes the 4-byte length field, writes the full payload and
  flushes, in this order, before it returns: whenever the call returns, exactly these
  three port operations have been appended to the log and the returned size is the
  payload length; and the call does return when no port operation fails.
\<close>

theorem send_steps_in_order:
  "(\<forall>n c'. compress_and_send_frame encode c img = (Inr n, c') \<longrightarrow>
      n = int (length (encode img)) \<and>
      (\<exists>hdr. struct_pack_I n = Inr hdr \<and> length hdr = 4 \<and>
             oplog c' = oplog c @ [Write hdr, Write (encode img), Flush])) \<and>
   (length (encode img) < 2 ^ 32 \<and> True \<notin> set (take 3 (faults c)) \<longrightarrow>
      (\<exists>c'. compress_and_send_frame encode c img = (Inr (int (length (encode img))), c')))"
proof (intro conjI allI impI)
  fix n c'
  assume h: "compress_and_send_frame encode c img = (Inr n, c')"
  show "n = int (length (encode img))"
    using compress_and_send_frame_Inr [OF h] by simp
  show "\<exists>hdr. struct_pack_I n = Inr hdr \<and> length hdr = 4 \<and>
             oplog c' = oplog c @ [Write hdr, Write (encode img), Flush]"
    using compress_and_send_frame_Inr [OF h] struct_pack_I_Inr(1) by blast
next
  assume a: "length (encode img) < 2 ^ 32 \<and> True \<notin> set (take 3 (faults c))"
  then have "int (length (encode img)) < 2 ^ 32"
    by (metis of_nat_less_iff of_nat_numeral of_nat_power)
  then obtain hdr where pk: "struct_pack_I (int (length (encode img))) = Inr hdr"
    using struct_pack_I_ok [of "int (length (encode img))"] by simp
  from a have nf: "True \<notin> set (take 3 (faults c))" by simp
  show "\<exists>c'. compress_and_send_frame encode c img = (Inr (int (length (encode img))), c')"
    using compress_and_send_frame_ok [where encode = encode and img = img and c = c, OF pk nf]
    by blast
qed

theorem send_steps_in_order_witness:
  "length (id [1, 2, 3 :: byte]) < 2 ^ 32 \<and>
   True \<notin> set (take 3 (faults \<lparr>oplog = [], faults = [False]\<rparr>)) \<and>
   compress_and_send_frame id \<lparr>oplog = [], faults = [False]\<rparr> [1, 2, 3 :: byte] =
     (Inr 3, \<lparr>oplog = [Write [0, 0, 0, 3], Write [1, 2, 3], Flush], faults = []\<rparr>)"
  using send_steps_in_order [of id "\<lparr>oplog = [], faults = [False]\<rparr>" "[1, 2, 3 :: byte]"]
  by (simp add: compress_and_send_frame_def struct_pack_I_def ser_write_def ser_flush_def
      next_fault_def)


section \<open>Pacing\<close>

text \<open>
  Claim C7. For every target interval \<open>T\<close> and every cycle duration \<open>d\<close> the computed sleep
  duration is \<open>max 0 (T - d)\<close>: it is \<open>T - d\<close> when \<open>d < T\<close>, and the loop then sleeps for
  that long; it is \<open>0\<close> when \<open>d \<ge> T\<close>, and the loop then does not sleep. The statement is
  about real numbers, the idealisation of the floating-point subtraction.
\<close>

theorem sleep_time_pacing:
  "sleep_time T d = max 0 (T - d) \<and>
   (d < T \<longrightarrow> sleep_time T d = T - d \<and> pace T d = Some (T - d)) \<and>
   (d \<ge> T \<longrightarrow> sleep_time T d = 0 \<and> pace T d = None)"
  by (simp add: sleep_time_def pace_def)

theorem sleep_time_pacing_witness:
  "sleep_time FRAME_INTERVAL (1 / 60) = 1 / 20 \<and> pace FRAME_INTERVAL (1 / 60) = Some (1 / 20) \<and>
   sleep_time FRAME_INTERVAL (1 / 10) = 0 \<and> pace FRAME_INTERVAL (1 / 10) = None"
  using sleep_time_pacing [of FRAME_INTERVAL "1 / 60"] sleep_time_pacing [of FRAME_INTERVAL "1 / 10"]
  by (simp add: FRAME_INTERVAL_def TARGET_FPS_def)

section \<open>A header that arrives in pieces\<close>

text \<open>
  Claim C2 asks that 1 to 3 header bytes followed by a stall produce no frame and no
  error and that the bytes be kept until the rest of the header arrives. The code does
  the first and not the second: \<^verbatim>\<open>if len(size_bytes) < 4: continue\<close> throws the bytes
  away. Below, the envelope \<open>00 00 00 02 | 01 02\<close> arrives as one byte, a stall, then the
  remaining five bytes. The first iteration emits nothing and leaves the port one byte
  further; the next header read takes \<open>00 00 02 01\<close> for the length 513; the complete
  run emits no frame at all.
\<close>

theorem partial_header_dropped:
  "loop_body exact Some \<lparr>frames_received = 0, start_time = 0, last_fps_update = 0\<rparr>
     \<lparr>events = [Data [0], Data [0, 0, 2, 1, 2]], io_log = [], clock = (\<lambda>_. 0), ticks = 1\<rparr>
   = (Inr [], \<lparr>frames_received = 0, start_time = 0, last_fps_update = 0\<rparr>,
      \<lparr>events = [Data [0, 0, 2, 1, 2]], io_log = [(4, 1)], clock = (\<lambda>_. 0), ticks = 1\<rparr>) \<and>
   fst (read_envelope
      \<lparr>events = [Data [0, 0, 2, 1, 2]], io_log = [(4, 1)], clock = (\<lambda>_. 0), ticks = 1\<rparr>)
   = Inr (Some (513, [2])) \<and>
   run exact Some True
     \<lparr>events = [Data [0], Data [0, 0, 2, 1, 2]], io_log = [], clock = (\<lambda>_. 0), ticks = 0\<rparr>
   = ([], Idle, \<lparr>frames_received = 0, start_time = 0, last_fps_update = 0\<rparr>,
      \<lparr>events = [], io_log = [(4, 1), (4, 4), (513, 1), (512, 0)], clock = (\<lambda>_. 0),
       ticks = 1\<rparr>)"
  by (simp add: ev_simps)

section \<open>Chunked delivery\<close>

text \<open>
  Claim C4 asks that every partition of an envelope into chunks give the same frame as
  the whole envelope. The envelope \<open>00 00 00 01 | 07\<close> delivered whole gives the frame
  \<open>07\<close>; delivered one byte at a time, with a stall after each byte, it gives nothing:
  each of the five header reads returns a single byte, which is discarded.
\<close>

theorem one_byte_chunks_lose_frame:
  "fst (run exact Some True
     \<lparr>events = [Data [0, 0, 0, 1, 7]], io_log = [], clock = (\<lambda>_. 0), ticks = 0\<rparr>)
   = [FrameReceived [7]] \<and>
   run exact Some True
     \<lparr>events = map Data [[0], [0], [0], [1], [7]], io_log = [], clock = (\<lambda>_. 0), ticks = 0\<rparr>
   = ([], Idle, \<lparr>frames_received = 0, start_time = 0, last_fps_update = 0\<rparr>,
      \<lparr>events = [], io_log = [(4, 1), (4, 1), (4, 1), (4, 1), (4, 1)], clock = (\<lambda>_. 0),
       ticks = 1\<rparr>)"
  by (simp add: ev_simps)

section \<open>Oversized length fields\<close>

text \<open>
  Claim C3, as stated, fails: the receiver has no maximum payload length. The header
  \<open>FF FF FF FF\<close> declares \<open>2^32 - 1\<close> bytes, more than any maximum below that; the run
  reports no error, ends idle, and has asked the port for payload bytes (4096 at a time).
\<close>

theorem oversized_length_accepted:
  "struct_unpack_I [255, 255, 255, 255] = Inr 4294967295 \<and>
   run exact Some True
     \<lparr>events = [Data [255, 255, 255, 255, 1, 2, 3]], io_log = [], clock = (\<lambda>_. 0), ticks = 0\<rparr>
   = ([], Idle, \<lparr>frames_received = 0, start_time = 0, last_fps_update = 0\<rparr>,
      \<lparr>events = [], io_log = [(4, 4), (4096, 3), (4096, 0)], clock = (\<lambda>_. 0), ticks = 1\<rparr>)"
  by (simp add: ev_simps)

text \<open>
  Claim C3, amended. For every 4-byte header, whatever length \<open>L\<close> below \<open>2^32\<close> it
  declares, the receiver raises no error on account of \<open>L\<close>: an iteration of the loop
  ends without an exception unless a read of the port raises. When \<open>L > 0\<close> and payload
  bytes follow the header, the receiver goes on to read them, asking for
  \<open>min L 4096\<close> bytes first.
\<close>

theorem no_length_limit:
  assumes ev: "events w = Data (hdr @ tail) # es" and h4: "length hdr = 4"
  shows "\<exists>L. struct_unpack_I hdr = Inr L \<and> 0 \<le> L \<and> L < 2 ^ 32 \<and>
     (Fail \<notin> set es \<longrightarrow> (\<exists>sigs st1 w1. loop_body fl decode st w = (Inr sigs, st1, w1))) \<and>
     (0 < L \<and> tail \<noteq> [] \<longrightarrow>
        (\<exists>k log. io_log (snd (read_envelope w))
                   = io_log w @ (4, 4) # (nat (min L 4096), k) # log \<and> 0 < k))"
proof -
  obtain L where L: "struct_unpack_I hdr = Inr L" "0 \<le> L" "L < 2 ^ 32"
    using struct_unpack_I_len4 [OF h4] by blast
  have a: "\<exists>sigs st1 w1. loop_body fl decode st w = (Inr sigs, st1, w1)" if "Fail \<notin> set es"
  proof -
    have nf: "Fail \<notin> set (events w)" using ev that by simp
    obtain r st1 w1 where lb: "loop_body fl decode st w = (r, st1, w1)"
      by (cases "loop_body fl decode st w")
    with loop_body_no_Fail [OF nf lb] show ?thesis by blast
  qed
  have b: "\<exists>k log. io_log (snd (read_envelope w))
                   = io_log w @ (4, 4) # (nat (min L 4096), k) # log \<and> 0 < k"
    if pos: "0 < L" and tl_ne: "tail \<noteq> []"
  proof -
    let ?w1 = "w\<lparr>events := Data tail # es, io_log := io_log w @ [(4, 4)]\<rparr>"
    have lt: "4 < length (hdr @ tail)" using h4 tl_ne by (cases tail) auto
    have rd: "ser_read 4 w = (Inr hdr, ?w1)"
      using ser_read_part [OF ev lt] h4 by simp
    have snd: "snd (read_envelope w) = snd (read_payload [] L ?w1)"
      using rd h4 L(1) by (rule read_envelope_snd)
    let ?n = "nat (min L 4096)"
    have rn: "running ?w1" by (simp add: running_def)
    have "\<exists>chunk w2. ser_read ?n ?w1 = (Inr chunk, w2) \<and> chunk \<noteq> [] \<and>
            io_log w2 = io_log ?w1 @ [(?n, length chunk)]"
    proof (cases "length tail \<le> ?n")
      case True
      let ?w2 = "?w1\<lparr>events := es, io_log := io_log ?w1 @ [(?n, length tail)]\<rparr>"
      have "ser_read ?n ?w1 = (Inr tail, ?w2)"
        by (rule ser_read_all [OF _ True]) simp
      moreover have "io_log ?w2 = io_log ?w1 @ [(?n, length tail)]" by simp
      ultimately show ?thesis using tl_ne by blast
    next
      case False
      then have lt: "?n < length tail" by simp
      let ?w2 = "?w1\<lparr>events := Data (drop ?n tail) # es, io_log := io_log ?w1 @ [(?n, ?n)]\<rparr>"
      have "ser_read ?n ?w1 = (Inr (take ?n tail), ?w2)"
        by (rule ser_read_part [OF _ lt]) simp
      moreover have "take ?n tail \<noteq> []" using pos tl_ne by (cases tail) auto
      moreover have "length (take ?n tail) = ?n" using lt by simp
      then have "io_log ?w2 = io_log ?w1 @ [(?n, length (take ?n tail))]" by simp
      ultimately show ?thesis by blast
    qed
    then obtain chunk w2 where rd2: "ser_read ?n ?w1 = (Inr chunk, w2)" and cne: "chunk \<noteq> []"
      and log2: "io_log w2 = io_log ?w1 @ [(?n, length chunk)]"
      by blast
    have "read_payload [] L ?w1 = read_payload ([] @ chunk) (L - int (length chunk)) w2"
      using pos rn rd2 cne by (rule read_payload_step)
    moreover obtain log where
      "io_log (snd (read_payload ([] @ chunk) (L - int (length chunk)) w2)) = io_log w2 @ log"
      using read_payload_log by blast
    ultimately have "io_log (snd (read_envelope w))
        = io_log w @ (4, 4) # (?n, length chunk) # log"
      using snd log2 by simp
    with cne show ?thesis by blast
  qed
  from L a b show ?thesis by blast
qed


theorem no_length_limit_witness:
  "(\<exists>sigs st1 w1.
      loop_body exact Some \<lparr>frames_received = 0, start_time = 0, last_fps_update = 0\<rparr>
        \<lparr>events = [Data [255, 255, 255, 255, 1, 2, 3]], io_log = [], clock = (\<lambda>_. 0),
         ticks = 0\<rparr> = (Inr sigs, st1, w1)) \<and>
   (\<exists>k log. io_log (snd (read_envelope
        \<lparr>events = [Data [255, 255, 255, 255, 1, 2, 3]], io_log = [], clock = (\<lambda>_. 0),
         ticks = 0\<rparr>)) = (4, 4) # (4096, k) # log \<and> 0 < k)"
proof -
  let ?w = "\<lparr>events = [Data [255, 255, 255, 255, 1, 2, 3]], io_log = [], clock = (\<lambda>_. 0),
             ticks = 0\<rparr>"
  let ?st = "\<lparr>frames_received = 0, start_time = 0, last_fps_update = 0\<rparr>"
  have ev: "events ?w = Data ([255, 255, 255, 255] @ [1, 2, 3]) # []" by simp
  have h4: "length [255, 255, 255, 255 :: byte] = 4" by simp
  obtain L where L: "struct_unpack_I [255, 255, 255, 255] = Inr L"
    and a: "Fail \<notin> set [] \<longrightarrow> (\<exists>sigs st1 w1. loop_body exact Some ?st ?w = (Inr sigs, st1, w1))"
    and b: "0 < L \<and> [1, 2, 3 :: byte] \<noteq> [] \<longrightarrow>
        (\<exists>k log. io_log (snd (read_envelope ?w))
                   = io_log ?w @ (4, 4) # (nat (min L 4096), k) # log \<and> 0 < k)"
    using no_length_limit [OF ev h4, where decode = Some and st = "?st" and fl = exact] by blast
  have "L = 4294967295" using L by (simp add: struct_unpack_I_def)
  then show ?thesis using a b by simp
qed


section \<open>Incomplete payloads\<close>

text \<open>
  Claim C5, as stated, fails in one part: nothing is reported for an incomplete payload.
  Here the header declares five bytes, three arrive, and the line falls silent: the run
  emits no signal at all, neither a frame nor an error.
\<close>

theorem incomplete_payload_unreported:
  "run exact Some True
     \<lparr>events = [Data [0, 0, 0, 5, 1, 2, 3]], io_log = [], clock = (\<lambda>_. 0), ticks = 0\<rparr>
   = ([], Idle, \<lparr>frames_received = 0, start_time = 0, last_fps_update = 0\<rparr>,
      \<lparr>events = [], io_log = [(4, 4), (5, 3), (2, 0)], clock = (\<lambda>_. 0), ticks = 1\<rparr>)"
  by (simp add: ev_simps)

text \<open>
  Claim C5, amended. For every envelope whose header arrives whole and declares \<open>L\<close>
  bytes, and whose stream stalls or closes (an empty read), is stopped, or fails before
  all \<open>L\<close> payload bytes have arrived: the receiver stops accumulating early, with the
  bytes received so far, and hands nothing to the decode stage, whatever the decoder is.
  After a stall, a close or a stop the iteration emits no signal and leaves the
  statistics unchanged; after a failing read the iteration raises, and the loop ends
  with the single report of a serial error. In every iteration, a frame is emitted only
  when the accumulated payload has exactly the declared length, and it is the decoding
  of that payload.
\<close>

theorem incomplete_payload_dropped:
  assumes pk: "struct_pack_I L = Inr hdr"
    and ev: "events w = Data c1 # map Data cs @ rest" and c1: "4 \<le> length c1"
    and ne: "[] \<notin> set cs" and cat: "c1 @ concat cs = hdr @ part"
    and short: "int (length part) < L"
    and rest: "rest = [] \<or> (\<exists>t. rest = Data [] # t) \<or> (\<exists>t. rest = Stop # t) \<or>
               (\<exists>t. rest = Fail # t)"
  shows "((\<forall>t. rest \<noteq> Fail # t) \<longrightarrow>
            fst (read_envelope w) = Inr (Some (L, part)) \<and>
            (\<exists>w1. loop_body fl decode st w = (Inr [], st, w1))) \<and>
         ((\<exists>t. rest = Fail # t) \<longrightarrow>
            (\<exists>w1. loop_body fl decode st w = (Inl SerialException, st, w1)) \<and>
            (\<exists>w1. run_loop fl decode st w = ([ErrorOccurred Serial], Crashed Serial, st, w1))) \<and>
         (\<forall>i sigs st1 v1.
            loop_body fl decode st v = (Inr sigs, st1, v1) \<and> FrameReceived i \<in> set sigs \<longrightarrow>
            (\<exists>n d. fst (read_envelope v) = Inr (Some (n, d)) \<and> int (length d) = n \<and>
                   decode d = Some i))"
proof -
  note hd = struct_pack_I_Inr(1,2) [OF pk]
  have le: "int (length part) \<le> L" using short by simp
  obtain log where re: "read_envelope w =
           (case read_payload part (L - int (length part))
                   (w\<lparr>events := rest, io_log := io_log w @ log\<rparr>) of
              (Inl e, w2) \<Rightarrow> (Inl e, w2)
            | (Inr (d, r), w2) \<Rightarrow> (Inr (Some (L, d)), w2))"
    using read_envelope_prefix [OF ev c1 ne cat hd le] by blast
  let ?W = "w\<lparr>events := rest, io_log := io_log w @ log\<rparr>"
  have pos: "0 < L - int (length part)" using short by simp
  have evW: "events ?W = rest" by simp
  have a: "fst (read_envelope w) = Inr (Some (L, part)) \<and>
            (\<exists>w1. loop_body fl decode st w = (Inr [], st, w1))" if nf: "\<forall>t. rest \<noteq> Fail # t"
  proof -
    have "events ?W = [] \<or> (\<exists>t. events ?W = Data [] # t) \<or> (\<exists>t. events ?W = Stop # t)"
      using rest nf by auto
    then obtain w1 where "read_payload part (L - int (length part)) ?W
        = (Inr (part, L - int (length part)), w1)"
      using read_payload_stall [OF pos] by blast
    then have r: "read_envelope w = (Inr (Some (L, part)), w1)" using re by simp
    have "int (length part) \<noteq> L" using short by simp
    with r have "loop_body fl decode st w = (Inr [], st, w1)" by (rule loop_body_incomplete)
    with r show ?thesis by auto
  qed
  have b: "(\<exists>w1. loop_body fl decode st w = (Inl SerialException, st, w1)) \<and>
            (\<exists>w1. run_loop fl decode st w = ([ErrorOccurred Serial], Crashed Serial, st, w1))"
    if "\<exists>t. rest = Fail # t"
  proof -
    from that obtain t where t: "events ?W = Fail # t" by auto
    have "read_envelope w = (Inl SerialException, ?W\<lparr>events := t\<rparr>)"
      using re read_payload_fail [OF pos t] by simp
    then have lb: "loop_body fl decode st w = (Inl SerialException, st, ?W\<lparr>events := t\<rparr>)"
      by (rule loop_body_raise)
    have ne: "events w \<noteq> []" using ev by simp
    have rn: "running w" using ev by (simp add: running_def)
    have "run_loop fl decode st w = ([ErrorOccurred Serial], Crashed Serial, st, ?W\<lparr>events := t\<rparr>)"
      using run_loop_crash [OF ne rn lb] by simp
    with lb show ?thesis by blast
  qed
  have c: "\<exists>n d. fst (read_envelope v) = Inr (Some (n, d)) \<and> int (length d) = n \<and>
                   decode d = Some i"
    if "loop_body fl decode st v = (Inr sigs, st1, v1) \<and> FrameReceived i \<in> set sigs"
    for i sigs st1 v1
  proof -
    from that have lb: "loop_body fl decode st v = (Inr sigs, st1, v1)"
      and fr: "FrameReceived i \<in> set sigs" by simp_all
    show ?thesis using lb fr by (rule loop_body_frames)
  qed
  show ?thesis
  proof (intro conjI impI allI)
    assume "\<forall>t. rest \<noteq> Fail # t"
    from a [OF this] show "fst (read_envelope w) = Inr (Some (L, part))"
      and "\<exists>w1. loop_body fl decode st w = (Inr [], st, w1)" by (rule conjunct1, rule conjunct2)
  next
    assume "\<exists>t. rest = Fail # t"
    from b [OF this] show "\<exists>w1. loop_body fl decode st w = (Inl SerialException, st, w1)"
      and "\<exists>w1. run_loop fl decode st w = ([ErrorOccurred Serial], Crashed Serial, st, w1)"
      by (rule conjunct1, rule conjunct2)
  next
    fix i sigs st1 v1
    assume "loop_body fl decode st v = (Inr sigs, st1, v1) \<and> FrameReceived i \<in> set sigs"
    then show "\<exists>n d. fst (read_envelope v) = Inr (Some (n, d)) \<and> int (length d) = n \<and>
                   decode d = Some i"
      by (rule c)
  qed
qed


theorem incomplete_payload_dropped_witness:
  "fst (read_envelope
      \<lparr>events = [Data [0, 0, 0, 5, 1, 2, 3]], io_log = [], clock = (\<lambda>_. 0), ticks = 0\<rparr>)
     = Inr (Some (5, [1, 2, 3])) \<and>
   (\<exists>w1. loop_body exact Some \<lparr>frames_received = 0, start_time = 0, last_fps_update = 0\<rparr>
      \<lparr>events = [Data [0, 0, 0, 5, 1, 2, 3]], io_log = [], clock = (\<lambda>_. 0), ticks = 0\<rparr>
     = (Inr [], \<lparr>frames_received = 0, start_time = 0, last_fps_update = 0\<rparr>, w1))"
proof -
  let ?w = "\<lparr>events = [Data [0, 0, 0, 5, 1, 2, 3]], io_log = [], clock = (\<lambda>_. 0),
             ticks = 0\<rparr>"
  let ?st = "\<lparr>frames_received = 0, start_time = 0, last_fps_update = 0\<rparr>"
  have pk: "struct_pack_I 5 = Inr [0, 0, 0, 5]" by (simp add: struct_pack_I_def)
  have ev: "events ?w = Data [0, 0, 0, 5, 1, 2, 3] # map Data [] @ []" by simp
  have c1: "4 \<le> length [0, 0, 0, 5, 1, 2, 3 :: byte]" by simp
  have ne: "[] \<notin> set ([] :: byte list list)" by simp
  have cat: "[0, 0, 0, 5, 1, 2, 3] @ concat [] = [0, 0, 0, 5] @ [1, 2, 3 :: byte]" by simp
  have short: "int (length [1, 2, 3 :: byte]) < 5" by simp
  have rest: "([] :: event list) = [] \<or> (\<exists>t. [] = Data [] # t) \<or> (\<exists>t. [] = Stop # t) \<or>
               (\<exists>t. [] = Fail # t)" by simp
  note th = incomplete_payload_dropped [OF pk ev c1 ne cat short rest,
      where decode = Some and st = "?st" and v = "?w" and fl = exact]
  from th show ?thesis by simp
qed


section \<open>Recovery after a decode failure\<close>

text \<open>
  Claim C6. For every well-framed envelope whose payload the image decoder rejects,
  followed by a well-formed envelope with a decodable payload (each delivered in
  non-empty bursts, its header whole in the first one): the iteration that reads the
  bad envelope reports exactly one decode failure, changes no statistics and consumes
  exactly the bytes of that envelope; the loop does not stop; the next iteration
  decodes the following envelope and emits its frame (with at most a rate sample after
  it); the loop then goes on with the rest of the stream. The floating-point
  subtraction is any operation that, like rounding to nearest, does not grow when the
  subtrahend grows.
\<close>

theorem decode_failure_recovery:
  assumes bad: "decode B = None" and good: "decode G = Some i"
    and inv: "start_time st \<le> last_fps_update st"
    and mono: "\<forall>t a b. a \<le> b \<longrightarrow> fsub fl t b \<le> fsub fl t a"
    and pkB: "struct_pack_I (int (length B)) = Inr hb"
    and pkG: "struct_pack_I (int (length G)) = Inr hg"
    and ev: "events w = Data b1 # map Data bs @ Data g1 # map Data gs @ es"
    and b1: "4 \<le> length b1" and bne: "[] \<notin> set bs" and bcat: "b1 @ concat bs = hb @ B"
    and g1: "4 \<le> length g1" and gne: "[] \<notin> set gs" and gcat: "g1 @ concat gs = hg @ G"
  shows "\<exists>log w1. w1 = w\<lparr>events := Data g1 # map Data gs @ es, io_log := io_log w @ log\<rparr> \<and>
           loop_body fl decode st w = (Inr [ErrorOccurred ProcessingFrame], st, w1) \<and>
           (\<exists>rest st2 w2.
              loop_body fl decode st w1 = (Inr (FrameReceived i # rest), st2, w2) \<and>
              events w2 = es \<and> (rest = [] \<or> (\<exists>v. rest = [FpsUpdate v])) \<and>
              (\<exists>later fin.
                 run_loop fl decode st2 w2 = (later, fin) \<and>
                 run_loop fl decode st w =
                   (ErrorOccurred ProcessingFrame # FrameReceived i # rest @ later, fin)))"
proof -
  let ?es1 = "Data g1 # map Data gs @ es"
  obtain log where re1: "read_envelope w =
      (Inr (Some (int (length B), B)), w\<lparr>events := ?es1, io_log := io_log w @ log\<rparr>)"
    using read_envelope_ok [OF ev b1 bne bcat pkB] by blast
  let ?w1 = "w\<lparr>events := ?es1, io_log := io_log w @ log\<rparr>"
  have pf1: "process_frame fl decode B st ?w1 = ([ErrorOccurred ProcessingFrame], st, ?w1)"
    using bad by (rule process_frame_None)
  have lb1: "loop_body fl decode st w = (Inr [ErrorOccurred ProcessingFrame], st, ?w1)"
    using re1 pf1 by (rule loop_body_frame)
  have ev1: "events ?w1 = Data g1 # map Data gs @ es" by simp
  obtain log2 where re2: "read_envelope ?w1 =
      (Inr (Some (int (length G), G)), ?w1\<lparr>events := es, io_log := io_log ?w1 @ log2\<rparr>)"
    using read_envelope_ok [OF ev1 g1 gne gcat pkG] by blast
  let ?w2 = "?w1\<lparr>events := es, io_log := io_log ?w1 @ log2\<rparr>"
  obtain rest st2 w3 where pf2: "process_frame fl decode G st ?w2 = (FrameReceived i # rest, st2, w3)"
    and ev3: "events w3 = events ?w2" and rest: "rest = [] \<or> (\<exists>v. rest = [FpsUpdate v])"
    using process_frame_Some_inv [where decode = decode and d = G and i = i and st = st
        and w = "?w2" and fl = fl, OF good inv mono] by blast
  have lb2: "loop_body fl decode st ?w1 = (Inr (FrameReceived i # rest), st2, w3)"
    using re2 pf2 by (rule loop_body_frame)
  obtain later fin where rl3: "run_loop fl decode st2 w3 = (later, fin)"
    by (cases "run_loop fl decode st2 w3")
  have rl2: "run_loop fl decode st ?w1 = ((FrameReceived i # rest) @ later, fin)"
  proof (rule run_loop_step [OF _ _ lb2 rl3])
    show "events ?w1 \<noteq> []" by simp
    show "running ?w1" by (simp add: running_def)
  qed
  have rl1: "run_loop fl decode st w =
      ([ErrorOccurred ProcessingFrame] @ (FrameReceived i # rest) @ later, fin)"
  proof (rule run_loop_step [OF _ _ lb1 rl2])
    show "events w \<noteq> []" using ev by simp
    show "running w" using ev by (simp add: running_def)
  qed
  have e3: "events w3 = es" using ev3 by simp
  show ?thesis
    using lb1 lb2 e3 rest rl3 rl1 by (intro exI conjI) (rule refl, simp_all)
qed


theorem decode_failure_recovery_witness:
  "\<exists>rest later fin.
     run_loop exact (\<lambda>d. if d = [9] then None else Some d)
       \<lparr>frames_received = 0, start_time = 0, last_fps_update = 0\<rparr>
       \<lparr>events = [Data [0, 0, 0, 1, 9], Data [0, 0, 0, 1, 7]], io_log = [], clock = (\<lambda>_. 0),
        ticks = 1\<rparr>
     = (ErrorOccurred ProcessingFrame # FrameReceived [7] # rest @ later, fin)"
proof -
  let ?dec = "\<lambda>d :: byte list. if d = [9] then None else Some d"
  let ?st = "\<lparr>frames_received = 0, start_time = 0, last_fps_update = 0\<rparr>"
  let ?w = "\<lparr>events = [Data [0, 0, 0, 1, 9], Data [0, 0, 0, 1, 7]], io_log = [],
             clock = (\<lambda>_. 0), ticks = 1\<rparr>"
  have bad: "?dec [9] = None" by simp
  have good: "?dec [7] = Some [7]" by simp
  have inv: "start_time ?st \<le> last_fps_update ?st" by simp
  have mono: "\<forall>t a b. a \<le> b \<longrightarrow> fsub exact t b \<le> fsub exact t a"
    by (simp add: exact_def)
  have pkB: "struct_pack_I (int (length [9 :: byte])) = Inr [0, 0, 0, 1]"
    by (simp add: struct_pack_I_def)
  have pkG: "struct_pack_I (int (length [7 :: byte])) = Inr [0, 0, 0, 1]"
    by (simp add: struct_pack_I_def)
  have ev: "events ?w = Data [0, 0, 0, 1, 9] # map Data [] @ Data [0, 0, 0, 1, 7] # map Data [] @ []"
    by simp
  have b1: "4 \<le> length [0, 0, 0, 1, 9 :: byte]" by simp
  have bne: "[] \<notin> set ([] :: byte list list)" by simp
  have bcat: "[0, 0, 0, 1, 9] @ concat [] = [0, 0, 0, 1] @ [9 :: byte]" by simp
  have g1: "4 \<le> length [0, 0, 0, 1, 7 :: byte]" by simp
  have gcat: "[0, 0, 0, 1, 7] @ concat [] = [0, 0, 0, 1] @ [7 :: byte]" by simp
  from decode_failure_recovery [where decode = "?dec" and fl = exact,
      OF bad good inv mono pkB pkG ev b1 bne bcat g1 bne gcat]
  show ?thesis by blast
qed

section \<open>Rate samples\<close>

text \<open>
  Claim C9, as stated, fails in its second half: the frame count is never reset. Three
  frames are decoded at the clock readings 0.5, 1 and 2 of a session started at 0 (all
  of them doubles, with exact differences and quotients). The first sample, at 1, is
  2 frames / 1 s. The second, at 2, is 3/2: all three frames over the two seconds since
  the start, although one frame came in since the first sample; and the counter ends
  at 3.
\<close>

theorem fps_count_not_reset:
  "run exact Some True
     \<lparr>events = [Data [0, 0, 0, 0], Data [0, 0, 0, 0], Data [0, 0, 0, 0]], io_log = [],
      clock = (\<lambda>n. if n \<le> 1 then real n / 2 else real n - 1), ticks = 0\<rparr>
   = ([FrameReceived [], FrameReceived [], FpsUpdate 2, FrameReceived [], FpsUpdate (3 / 2)],
      Idle, \<lparr>frames_received = 3, start_time = 0, last_fps_update = 2\<rparr>,
      \<lparr>events = [], io_log = [(4, 4), (4, 4), (4, 4)],
       clock = (\<lambda>n. if n \<le> 1 then real n / 2 else real n - 1), ticks = 4\<rparr>)"
  by (rule three_frames_run)

text \<open>
  Claim C9, amended. The receiver emits a rate sample not per frame but at most once
  per second of wall-clock time as the code measures it: a frame is followed by a
  sample exactly when the double-precision difference between the clock reading taken
  for that frame and the reading at the previous sample (the session start, before the
  first sample) is at least 1.0, and the time since the start is not computed as zero.
  The emitted value is the number of frames received since the start of the session,
  never reset, divided by the computed time since the start.

  The theorem is about the signals of a whole run, for every floating-point subtraction
  and division: its frames and rate samples, in the order emitted, are those of
  \<open>rate_spec\<close> for the frames of the run and the clock readings taken after the start,
  and the frame counter ends at the number of frames emitted.
\<close>

theorem fps_cumulative:
  assumes "run fl decode port_available w = (sigs, fin, st, w1)"
  shows "filter (\<lambda>s. is_frame s \<or> is_fps s) sigs =
           rate_spec fl (clock w (ticks w)) (clock w (ticks w)) 0
             (zip (frames_of sigs)
                (readings (clock w) (Suc (ticks w)) (length (frames_of sigs)))) \<and>
         frames_received st = int (length (frames_of sigs))"
proof (cases port_available)
  case False
  with assms have "sigs = [ErrorOccurred Serial]" "frames_received st = 0"
    by (auto simp: run_def)
  then show ?thesis by simp
next
  case True
  let ?st0 = "\<lparr>frames_received = 0, start_time = clock w (ticks w),
               last_fps_update = clock w (ticks w)\<rparr>"
  have rl: "run_loop fl decode ?st0 (w\<lparr>ticks := Suc (ticks w)\<rparr>) = (sigs, fin, st, w1)"
    using assms True by (simp add: run_def time_time_def)
  from run_loop_rate [OF rl] show ?thesis by simp
qed

theorem fps_cumulative_witness:
  "filter (\<lambda>s. is_frame s \<or> is_fps s)
     [FrameReceived [], FrameReceived [], FpsUpdate 2, FrameReceived ([] :: byte list),
      FpsUpdate (3 / 2)] =
   rate_spec exact 0 0 0 [([], 1 / 2), ([], 1), ([], 2)] \<and>
   (3 :: int) = int (length (frames_of
     [FrameReceived [], FrameReceived [], FpsUpdate 2, FrameReceived ([] :: byte list),
      FpsUpdate (3 / 2)]))"
  using fps_cumulative [OF three_frames_run] by (simp add: exact_def numeral_3_eq_3)

section \<open>The invariant of the payload loop\<close>

text \<open>
  Claim C10, as stated, fails in its last part: the loop also stops when the running
  flag has been cleared. Two bytes are declared, one arrives, then \<^verbatim>\<open>stop()\<close> is
  called: the loop ends with \<open>remaining = 1\<close>, and its only read returned one byte.
\<close>

theorem stop_exits_payload_loop:
  "read_payload [] 2
     \<lparr>events = [Data [1], Stop], io_log = [], clock = (\<lambda>_. 0), ticks = 0\<rparr>
   = (Inr ([1], 1),
      \<lparr>events = [Stop], io_log = [(2, 1)], clock = (\<lambda>_. 0), ticks = 0\<rparr>)"
  by (simp add: ev_simps)

text \<open>
  Claim C10, amended. Each read of the payload loop asks for \<open>min remaining 4096\<close> bytes
  and gets at most that many, so the invariant
  \<open>length jpeg_data + remaining = frame_size\<close> and \<open>remaining \<ge> 0\<close> holds after every
  read and at the exit of the loop; the accumulated payload never exceeds the declared
  length. The loop stops exactly when \<open>remaining\<close> has reached 0, the running flag has
  been cleared, a read returns nothing, or a read raises (which is always a
  \<^verbatim>\<open>SerialException\<close>); after any other read it goes on with the chunk appended.
\<close>

theorem payload_loop_invariant:
  "(0 < remaining \<and> ser_read (nat (min remaining 4096)) w = (Inr chunk, w0) \<and>
      int (length acc) + remaining = L \<longrightarrow>
        int (length chunk) \<le> min remaining 4096 \<and>
        int (length (acc @ chunk)) + (remaining - int (length chunk)) = L \<and>
        0 \<le> remaining - int (length chunk)) \<and>
   (0 \<le> remaining \<and> int (length acc) + remaining = L \<and>
      read_payload acc remaining w = (Inr (d, r), w1) \<longrightarrow>
        int (length d) + r = L \<and> 0 \<le> r \<and> int (length d) \<le> L \<and>
        (r = 0 \<or> \<not> running w1 \<or>
         (\<exists>n pre. io_log w1 = pre @ [(n, 0)] \<and> length (io_log w) < length (io_log w1)))) \<and>
   (read_payload acc remaining w = (Inl e, w1) \<longrightarrow>
        e = SerialException \<and> Fail \<in> set (events w)) \<and>
   (remaining \<le> 0 \<or> \<not> running w \<longrightarrow>
        read_payload acc remaining w = (Inr (acc, remaining), w)) \<and>
   (0 < remaining \<and> running w \<and> ser_read (nat (min remaining 4096)) w = (Inr [], w0) \<longrightarrow>
        read_payload acc remaining w = (Inr (acc, remaining), w0)) \<and>
   (0 < remaining \<and> running w \<and> ser_read (nat (min remaining 4096)) w = (Inl e, w0) \<longrightarrow>
        read_payload acc remaining w = (Inl e, w0)) \<and>
   (0 < remaining \<and> running w \<and> ser_read (nat (min remaining 4096)) w = (Inr chunk, w0) \<and>
      chunk \<noteq> [] \<longrightarrow>
        read_payload acc remaining w =
          read_payload (acc @ chunk) (remaining - int (length chunk)) w0)"
proof (intro conjI impI)
  assume "0 < remaining \<and> ser_read (nat (min remaining 4096)) w = (Inr chunk, w0) \<and>
      int (length acc) + remaining = L"
  then have a: "0 < remaining" "ser_read (nat (min remaining 4096)) w = (Inr chunk, w0)"
    "int (length acc) + remaining = L" by simp_all
  note s = payload_step_invariant [OF a]
  from s show "int (length chunk) \<le> min remaining 4096" by simp
  from s show "int (length (acc @ chunk)) + (remaining - int (length chunk)) = L" by simp
  from s show "0 \<le> remaining - int (length chunk)" by simp
next
  assume "0 \<le> remaining \<and> int (length acc) + remaining = L \<and>
      read_payload acc remaining w = (Inr (d, r), w1)"
  then have a: "0 \<le> remaining" "int (length acc) + remaining = L"
    "read_payload acc remaining w = (Inr (d, r), w1)" by simp_all
  note x = read_payload_exit [OF a]
  from x show "int (length d) + r = L" by simp
  from x show "0 \<le> r" by simp
  from x show "int (length d) \<le> L" by simp
  from x show "r = 0 \<or> \<not> running w1 \<or>
         (\<exists>n pre. io_log w1 = pre @ [(n, 0)] \<and> length (io_log w) < length (io_log w1))"
    by simp
next
  assume a: "read_payload acc remaining w = (Inl e, w1)"
  from read_payload_Inl [OF a] show "e = SerialException" by simp
  from read_payload_Inl [OF a] show "Fail \<in> set (events w)" by simp
next
  assume "remaining \<le> 0 \<or> \<not> running w"
  then show "read_payload acc remaining w = (Inr (acc, remaining), w)"
    by (subst read_payload.simps) auto
next
  assume "0 < remaining \<and> running w \<and> ser_read (nat (min remaining 4096)) w = (Inr [], w0)"
  then show "read_payload acc remaining w = (Inr (acc, remaining), w0)"
    by (subst read_payload.simps) simp
next
  assume "0 < remaining \<and> running w \<and> ser_read (nat (min remaining 4096)) w = (Inl e, w0)"
  then show "read_payload acc remaining w = (Inl e, w0)"
    by (subst read_payload.simps) simp
next
  assume "0 < remaining \<and> running w \<and> ser_read (nat (min remaining 4096)) w = (Inr chunk, w0) \<and>
      chunk \<noteq> []"
  then show "read_payload acc remaining w =
          read_payload (acc @ chunk) (remaining - int (length chunk)) w0"
    by (subst read_payload.simps) simp
qed


theorem payload_loop_invariant_witness:
  "(0 :: int) \<le> 3 \<and> int (length ([] :: byte list)) + 3 = 3 \<and>
   read_payload [] 3 \<lparr>events = [Data [1, 2], Data [3]], io_log = [], clock = (\<lambda>_. 0), ticks = 0\<rparr>
     = (Inr ([1, 2, 3], 0),
        \<lparr>events = [], io_log = [(3, 2), (1, 1)], clock = (\<lambda>_. 0), ticks = 0\<rparr>) \<and>
   int (length [1, 2, 3 :: byte]) + 0 = 3"
  using payload_loop_invariant [where remaining = 3 and acc = "[]" and L = 3 and d = "[1, 2, 3]"
      and r = 0
      and w = "\<lparr>events = [Data [1, 2], Data [3]], io_log = [], clock = (\<lambda>_. 0), ticks = 0\<rparr>"
      and ?w1.0 = "\<lparr>events = [], io_log = [(3, 2), (1, 1)], clock = (\<lambda>_. 0), ticks = 0\<rparr>"]
  by (simp add: ev_simps)

end
